theory Spec2Isabelle
  imports Main
begin

section \<open>RawMemory and Vector of vector.h\<close>

text \<open>
  The element type \<open>T\<close> of the templates is the type variable \<open>'a\<close>. What \<open>T\<close> and the
  allocator do is not in vector.h, so it is a parameter of every operation (\<open>env\<close>):
  which values make \<open>T\<close>'s copy constructor and copy assignment throw, which values
  make its move constructor throw and which its move assignment, the value a moved-from
  object is left with, the compile-time test
  \<open>is_nothrow_move_constructible_v<T> || !is_copy_constructible_v<T>\<close>, the result of
  value-initialisation \<open>T()\<close> (\<open>None\<close> when it throws), \<open>sizeof(T)\<close> and the
  byte counts \<open>operator new\<close> refuses. An element type without a move constructor is
  one whose moves are copies: they throw where the copies do and leave the source as
  it was. The counts of elements are \<open>nat\<close>: the live elements of a vector fit in
  memory, so \<open>size_ * 2\<close> does not wrap; the product \<open>n * sizeof(T)\<close> of \<open>Allocate\<close>,
  whose \<open>n\<close> can come from the caller, is computed in \<open>size_t\<close>. A name cannot end in
  an underscore here, so the members \<open>buffer_\<close>, \<open>capacity_\<close>, \<open>data_\<close> and \<open>size_\<close>
  are the fields \<open>buffer_m\<close>, \<open>capacity_m\<close>, \<open>data_m\<close> and \<open>size_m\<close>.
\<close>

datatype error = BadAlloc | ElemThrow | Undefined

record 'a env =
  copy_throws :: "'a \<Rightarrow> bool"
  move_throws :: "'a \<Rightarrow> bool"
  move_assign_throws :: "'a \<Rightarrow> bool"
  moved_from :: "'a \<Rightarrow> 'a"
  nothrow_move :: bool
  value_init :: "'a option"
  sizeof_T :: nat
  new_fails :: "nat \<Rightarrow> bool"

text \<open>
  A block of raw memory is the list of its slots: \<open>None\<close> is an uninitialised slot,
  \<open>Some x\<close> a live object of value \<open>x\<close>. RawMemory is not copyable and a block has one
  owner, so the pointer \<open>buffer_\<close> is modelled together with the block it points to.
  \<open>Allocate\<close> returns \<open>nullptr\<close> when it is asked for no element, and a block has the
  slots its bytes have room for: the empty list is the null pointer, or a block
  without room for an element.
  Reading an uninitialised slot or reaching outside the block is undefined behaviour in
  the source; the model reports it as the error \<open>Undefined\<close>.
\<close>

type_synonym 'a block = "'a option list"

record 'a RawMemory =
  buffer_m :: "'a block"
  capacity_m :: nat

record 'a Vector =
  data_m :: "'a RawMemory"
  size_m :: nat

text \<open>
  The program state: the Vector objects by identity (the address of the object, which
  \<open>operator=\<close> compares), and the element counts \<open>n\<close> of the calls of \<open>Allocate\<close> for
  which \<open>operator new\<close> has returned a block, in order.
\<close>

record 'a store =
  objs :: "nat \<Rightarrow> 'a Vector"
  allocs :: "nat list"

datatype 'a outcome = Done "'a store" | Threw error "'a store"

subsection \<open>The standard algorithms on slots\<close>

definition rd :: "'a block \<Rightarrow> nat \<Rightarrow> 'a option" where
  "rd blk i = (if i < length blk then blk ! i else None)"

text \<open>\<open>std::uninitialized_copy_n(src + s, n, dst + d)\<close>: copy-constructs in order; when a
  copy throws, the objects constructed so far are destroyed before the exception leaves.\<close>

fun uninitialized_copy_n ::
  "'a env \<Rightarrow> 'a block \<Rightarrow> nat \<Rightarrow> nat \<Rightarrow> 'a block \<Rightarrow> nat \<Rightarrow> error option \<times> 'a block" where
  "uninitialized_copy_n env src s 0 dst d = (None, dst)"
| "uninitialized_copy_n env src s (Suc n) dst d =
     (case rd src s of
        None \<Rightarrow> (Some Undefined, dst)
      | Some x \<Rightarrow>
          if \<not> d < length dst then (Some Undefined, dst)
          else if copy_throws env x then (Some ElemThrow, dst)
          else (case uninitialized_copy_n env src (Suc s) n (dst[d := Some x]) (Suc d) of
                  (None, dst') \<Rightarrow> (None, dst')
                | (Some e, dst') \<Rightarrow> (Some e, dst'[d := None])))"

text \<open>\<open>std::uninitialized_move_n(src + s, n, dst + d)\<close>: move-constructs in order; the
  source objects stay alive, in their moved-from state. When a move throws, the objects
  constructed so far are destroyed and the sources already moved from stay so.\<close>

fun uninitialized_move_n ::
  "'a env \<Rightarrow> 'a block \<Rightarrow> nat \<Rightarrow> nat \<Rightarrow> 'a block \<Rightarrow> nat \<Rightarrow> error option \<times> 'a block \<times> 'a block" where
  "uninitialized_move_n env src s 0 dst d = (None, src, dst)"
| "uninitialized_move_n env src s (Suc n) dst d =
     (case rd src s of
        None \<Rightarrow> (Some Undefined, src, dst)
      | Some x \<Rightarrow>
          if \<not> d < length dst then (Some Undefined, src, dst)
          else if move_throws env x then (Some ElemThrow, src, dst)
          else (case uninitialized_move_n env (src[s := Some (moved_from env x)]) (Suc s) n
                       (dst[d := Some x]) (Suc d) of
                  (None, src', dst') \<Rightarrow> (None, src', dst')
                | (Some e, src', dst') \<Rightarrow> (Some e, src', dst'[d := None])))"

text \<open>\<open>std::copy(src + s, src + s + n, dst + d)\<close> and \<open>std::copy_n\<close>: copy-assigns in
  order onto live objects; nothing is undone when an assignment throws.\<close>

fun copy_n :: "'a env \<Rightarrow> 'a block \<Rightarrow> nat \<Rightarrow> nat \<Rightarrow> 'a block \<Rightarrow> nat \<Rightarrow> error option \<times> 'a block" where
  "copy_n env src s 0 dst d = (None, dst)"
| "copy_n env src s (Suc n) dst d =
     (case (rd src s, rd dst d) of
        (Some x, Some y) \<Rightarrow>
          if copy_throws env x then (Some ElemThrow, dst)
          else copy_n env src (Suc s) n (dst[d := Some x]) (Suc d)
      | _ \<Rightarrow> (Some Undefined, dst))"

text \<open>\<open>std::move(blk + first, blk + first + n, blk + d)\<close> inside one block: move-assigns
  in order, first element first; nothing is undone when an assignment throws.\<close>

fun move_n :: "'a env \<Rightarrow> 'a block \<Rightarrow> nat \<Rightarrow> nat \<Rightarrow> nat \<Rightarrow> error option \<times> 'a block" where
  "move_n env blk first 0 d = (None, blk)"
| "move_n env blk first (Suc n) d =
     (case (rd blk first, rd blk d) of
        (Some x, Some y) \<Rightarrow>
          if move_assign_throws env x then (Some ElemThrow, blk)
          else move_n env ((blk[first := Some (moved_from env x)])[d := Some x])
                 (Suc first) n (Suc d)
      | _ \<Rightarrow> (Some Undefined, blk))"

text \<open>\<open>std::move_backward(blk + first, blk + first + n, blk + d_last)\<close> inside one block:
  move-assigns the \<open>n\<close> elements onto the range that ends at \<open>d_last\<close>, last element
  first; nothing is undone when an assignment throws.\<close>

fun move_backward :: "'a env \<Rightarrow> 'a block \<Rightarrow> nat \<Rightarrow> nat \<Rightarrow> nat \<Rightarrow> error option \<times> 'a block" where
  "move_backward env blk first 0 d_last = (None, blk)"
| "move_backward env blk first (Suc n) d_last =
     (if d_last = 0 then (Some Undefined, blk)
      else case (rd blk (first + n), rd blk (d_last - 1)) of
        (Some x, Some y) \<Rightarrow>
          if move_assign_throws env x then (Some ElemThrow, blk)
          else move_backward env
                 ((blk[first + n := Some (moved_from env x)])[d_last - 1 := Some x])
                 first n (d_last - 1)
      | _ \<Rightarrow> (Some Undefined, blk))"

text \<open>\<open>std::destroy_n(blk + off, n)\<close> and \<open>std::destroy_at\<close>: the slots are raw again.\<close>

fun destroy_n :: "'a block \<Rightarrow> nat \<Rightarrow> nat \<Rightarrow> 'a block" where
  "destroy_n blk off 0 = blk"
| "destroy_n blk off (Suc n) = destroy_n (blk[off := None]) (Suc off) n"

definition destroy_at :: "'a block \<Rightarrow> nat \<Rightarrow> 'a block" where
  "destroy_at blk i = blk[i := None]"


text \<open>Placement new \<open>new (blk + i) T(args...)\<close>: \<open>arg\<close> is what the constructor call
  yields, \<open>None\<close> when it throws.\<close>

definition construct_at :: "'a block \<Rightarrow> nat \<Rightarrow> 'a option \<Rightarrow> error + 'a block" where
  "construct_at blk i arg =
     (case arg of
        None \<Rightarrow> Inl ElemThrow
      | Some x \<Rightarrow> if i < length blk then Inr (blk[i := Some x]) else Inl Undefined)"

definition copy_of :: "'a env \<Rightarrow> 'a \<Rightarrow> 'a option" where
  "copy_of env x = (if copy_throws env x then None else Some x)"

definition move_of :: "'a env \<Rightarrow> 'a \<Rightarrow> 'a option" where
  "move_of env x = (if move_throws env x then None else Some x)"

subsection \<open>RawMemory\<close>

definition RawMemory_default :: "'a RawMemory" where
  "RawMemory_default = \<lparr>buffer_m = [], capacity_m = 0\<rparr>"

text \<open>\<open>Allocate(n)\<close> is \<open>n != 0 ? operator new(n * sizeof(T)) : nullptr\<close>. The product is
  taken in \<open>size_t\<close>, 64 bits wide, and wraps; the block \<open>operator new\<close> returns has
  the bytes it was asked for, which is room for \<open>bytes div sizeof(T)\<close> elements.
  \<open>alloc_fails env n\<close> says that \<open>Allocate(n)\<close> does not give a block of \<open>n\<close> slots:
  \<open>operator new\<close> refuses the request, or the product has wrapped.\<close>

definition size_t_mul :: "nat \<Rightarrow> nat \<Rightarrow> nat" where
  "size_t_mul a b = nat ((int a * int b) mod 18446744073709551616)"

definition Allocate :: "'a env \<Rightarrow> nat \<Rightarrow> 'a store \<Rightarrow> error + 'a block \<times> 'a store" where
  "Allocate env n st =
     (if n \<noteq> 0 then
        (let bytes = size_t_mul n (sizeof_T env) in
         if new_fails env bytes then Inl BadAlloc
         else Inr (replicate (bytes div sizeof_T env) None, st\<lparr>allocs := allocs st @ [n]\<rparr>))
      else Inr ([], st))"

definition alloc_fails :: "'a env \<Rightarrow> nat \<Rightarrow> bool" where
  "alloc_fails env n \<longleftrightarrow>
     new_fails env (size_t_mul n (sizeof_T env)) \<or>
     size_t_mul n (sizeof_T env) div sizeof_T env \<noteq> n"

text \<open>\<open>fits env n\<close>: the product \<open>n * sizeof(T)\<close> does not wrap.\<close>

definition fits :: "'a env \<Rightarrow> nat \<Rightarrow> bool" where
  "fits env n \<longleftrightarrow> 0 < sizeof_T env \<and> n * sizeof_T env < 2 ^ 64"

definition RawMemory_ctor :: "'a env \<Rightarrow> nat \<Rightarrow> 'a store \<Rightarrow> error + 'a RawMemory \<times> 'a store" where
  "RawMemory_ctor env capacity st =
     (case Allocate env capacity st of
        Inl e \<Rightarrow> Inl e
      | Inr (b, st') \<Rightarrow> Inr (\<lparr>buffer_m = b, capacity_m = capacity\<rparr>, st'))"

text \<open>The move constructor returns the new object and the source as it is left.
  \<open>std::move\<close> of a \<open>size_t\<close> and of a raw pointer copies them.\<close>

definition RawMemory_move_ctor :: "'a RawMemory \<Rightarrow> 'a RawMemory \<times> 'a RawMemory" where
  "RawMemory_move_ctor other = (\<lparr>buffer_m = buffer_m other, capacity_m = capacity_m other\<rparr>, other)"

definition RawMemory_Swap :: "'a RawMemory \<Rightarrow> 'a RawMemory \<Rightarrow> 'a RawMemory \<times> 'a RawMemory" where
  "RawMemory_Swap this other =
     (\<lparr>buffer_m = buffer_m other, capacity_m = capacity_m other\<rparr>,
      \<lparr>buffer_m = buffer_m this, capacity_m = capacity_m this\<rparr>)"

definition RawMemory_move_assign :: "'a RawMemory \<Rightarrow> 'a RawMemory \<Rightarrow> 'a RawMemory \<times> 'a RawMemory" where
  "RawMemory_move_assign this rhs = RawMemory_Swap this rhs"

definition GetAddress :: "'a RawMemory \<Rightarrow> 'a block" where
  "GetAddress m = buffer_m m"

subsection \<open>Vector\<close>

definition Vector_default :: "'a Vector" where
  "Vector_default = \<lparr>data_m = RawMemory_default, size_m = 0\<rparr>"

definition Size :: "'a Vector \<Rightarrow> nat" where
  "Size v = size_m v"

definition Capacity :: "'a Vector \<Rightarrow> nat" where
  "Capacity v = capacity_m (data_m v)"

definition put :: "'a store \<Rightarrow> nat \<Rightarrow> 'a Vector \<Rightarrow> 'a store" where
  "put st this v = st\<lparr>objs := (objs st)(this := v)\<rparr>"

definition set_buffer :: "'a Vector \<Rightarrow> 'a block \<Rightarrow> 'a Vector" where
  "set_buffer v b = v\<lparr>data_m := (data_m v)\<lparr>buffer_m := b\<rparr>\<rparr>"


text \<open>\<open>Vector(const Vector& other)\<close>: first as the value of a new object (the local
  \<open>rhs_copy\<close> of \<open>operator=\<close> is one), then constructing the object \<open>this\<close>.\<close>

definition copy_construct :: "'a env \<Rightarrow> 'a Vector \<Rightarrow> 'a store \<Rightarrow> (error + 'a Vector) \<times> 'a store" where
  "copy_construct env other st =
     (case RawMemory_ctor env (size_m other) st of
        Inl e \<Rightarrow> (Inl e, st)
      | Inr (d, st') \<Rightarrow>
          (case uninitialized_copy_n env (GetAddress (data_m other)) 0 (size_m other) (GetAddress d) 0 of
             (Some e, b) \<Rightarrow> (Inl e, st')
           | (None, b) \<Rightarrow> (Inr \<lparr>data_m = d\<lparr>buffer_m := b\<rparr>, size_m = size_m other\<rparr>, st')))"


text \<open>\<open>Swap\<close>: \<open>other.data_.Swap(data_); std::swap(size_, other.size_)\<close>, on two object
  values and on two objects of the store. The second write wins when the two are one
  object, and writes back what was there.\<close>

definition swap_values :: "'a Vector \<Rightarrow> 'a Vector \<Rightarrow> 'a Vector \<times> 'a Vector" where
  "swap_values this other =
     (let (od, td) = RawMemory_Swap (data_m other) (data_m this)
      in (\<lparr>data_m = td, size_m = size_m other\<rparr>, \<lparr>data_m = od, size_m = size_m this\<rparr>))"

definition Swap :: "nat \<Rightarrow> nat \<Rightarrow> 'a store \<Rightarrow> 'a store" where
  "Swap this other st =
     (let (t, ot) = swap_values (objs st this) (objs st other)
      in put (put st this t) other ot)"

text \<open>\<open>Vector(Vector&& other)\<close>: the members of the new object \<open>this\<close> take their default
  initialisers, then \<open>Swap(other)\<close>.\<close>

definition Vector_move :: "nat \<Rightarrow> nat \<Rightarrow> 'a store \<Rightarrow> 'a store" where
  "Vector_move this other st = Swap this other (put st this Vector_default)"

definition Vector_move_assign :: "nat \<Rightarrow> nat \<Rightarrow> 'a store \<Rightarrow> 'a store" where
  "Vector_move_assign this rhs st = Swap this rhs st"

text \<open>\<open>operator=(const Vector& rhs)\<close>. The source tests \<open>dif_size == 0\<close> and then
  \<open>dif_size > 0\<close> in two \<open>if\<close> statements, of which one runs.\<close>

definition Vector_copy_assign :: "'a env \<Rightarrow> nat \<Rightarrow> nat \<Rightarrow> 'a store \<Rightarrow> 'a outcome" where
  "Vector_copy_assign env this rhs st =
     (if this \<noteq> rhs then
        (let t = objs st this; r = objs st rhs in
         if size_m r > Capacity t then
           (case copy_construct env r st of
              (Inl e, st') \<Rightarrow> Threw e st'
            | (Inr rhs_copy, st') \<Rightarrow>
                (let (t', rhs_copy') = swap_values (objs st' this) rhs_copy
                 in Done (put st' this t')))
         else if Size r < size_m t then
           (case copy_n env (GetAddress (data_m r)) 0 (size_m r) (GetAddress (data_m t)) 0 of
              (Some e, b) \<Rightarrow> Threw e (put st this (set_buffer t b))
            | (None, b) \<Rightarrow>
                (let dif_size = size_m t - size_m r;
                     b' = destroy_n b (size_m r) dif_size
                 in Done (put st this ((set_buffer t b')\<lparr>size_m := size_m r\<rparr>))))
         else if Size r \<ge> size_m t then
           (let dif_size = size_m r - size_m t in
            if dif_size = 0 then
              (case copy_n env (GetAddress (data_m r)) 0 (size_m r) (GetAddress (data_m t)) 0 of
                 (Some e, b) \<Rightarrow> Threw e (put st this (set_buffer t b))
               | (None, b) \<Rightarrow> Done (put st this (set_buffer t b)))
            else if dif_size > 0 then
              (case copy_n env (GetAddress (data_m r)) 0 (size_m t) (GetAddress (data_m t)) 0 of
                 (Some e, b) \<Rightarrow> Threw e (put st this (set_buffer t b))
               | (None, b) \<Rightarrow>
                   (case uninitialized_copy_n env (GetAddress (data_m r)) (size_m t) dif_size b (size_m t) of
                      (Some e, b') \<Rightarrow> Threw e (put st this (set_buffer t b'))
                    | (None, b') \<Rightarrow> Done (put st this ((set_buffer t b')\<lparr>size_m := size_m r\<rparr>))))
            else Done st)
         else Done st)
      else Done st)"

text \<open>The transfer of the old elements into the new block, written in the source as
  \<open>if constexpr (...) uninitialized_move_n(...) else uninitialized_copy_n(...)\<close> in
  Reserve, PushBack, EmplaceBack and Emplace. It returns the old block too, which a
  move changes.\<close>

definition transfer_n ::
  "'a env \<Rightarrow> 'a block \<Rightarrow> nat \<Rightarrow> nat \<Rightarrow> 'a block \<Rightarrow> nat \<Rightarrow> error option \<times> 'a block \<times> 'a block" where
  "transfer_n env src s n dst d =
     (if nothrow_move env then uninitialized_move_n env src s n dst d
      else (case uninitialized_copy_n env src s n dst d of (e, dst') \<Rightarrow> (e, src, dst')))"

text \<open>The end of every reallocation: \<open>destroy_n(data_.GetAddress(), size_);
  data_.Swap(new_data)\<close>; the local \<open>new_data\<close> then takes the old block away.\<close>

definition replace_data :: "'a Vector \<Rightarrow> 'a block \<Rightarrow> 'a RawMemory \<Rightarrow> 'a Vector" where
  "replace_data t old new_data =
     (let old' = destroy_n old 0 (size_m t);
          (d, new_data') = RawMemory_Swap ((data_m t)\<lparr>buffer_m := old'\<rparr>) new_data
      in t\<lparr>data_m := d\<rparr>)"

definition Reserve :: "'a env \<Rightarrow> nat \<Rightarrow> nat \<Rightarrow> 'a store \<Rightarrow> 'a outcome" where
  "Reserve env this new_capacity st =
     (let t = objs st this in
      if new_capacity \<le> Capacity t then Done st
      else
        (case RawMemory_ctor env new_capacity st of
           Inl e \<Rightarrow> Threw e st
         | Inr (new_data, st') \<Rightarrow>
             (case transfer_n env (GetAddress (data_m t)) 0 (size_m t) (GetAddress new_data) 0 of
                (Some e, old, nb) \<Rightarrow> Threw e (put st' this (set_buffer t old))
              | (None, old, nb) \<Rightarrow>
                  Done (put st' this (replace_data t old (new_data\<lparr>buffer_m := nb\<rparr>))))))"


text \<open>\<open>PushBack(const T&)\<close>, \<open>PushBack(T&&)\<close> and \<open>EmplaceBack(args...)\<close> have one body
  in the source, up to how the new element is constructed: \<open>arg\<close> is what that
  construction yields. The new element is constructed before any element of the vector
  is touched, so an argument that refers to an element of the vector is read as it was
  at the call. The reference EmplaceBack returns is not modelled.\<close>

definition EmplaceBack :: "'a env \<Rightarrow> nat \<Rightarrow> 'a option \<Rightarrow> 'a store \<Rightarrow> 'a outcome" where
  "EmplaceBack env this arg st =
     (let t = objs st this in
      if size_m t = Capacity t then
        (case RawMemory_ctor env (if size_m t = 0 then 1 else size_m t * 2) st of
           Inl e \<Rightarrow> Threw e st
         | Inr (new_data, st') \<Rightarrow>
             (case construct_at (GetAddress new_data) (size_m t) arg of
                Inl e \<Rightarrow> Threw e st'
              | Inr nb0 \<Rightarrow>
                  (case transfer_n env (GetAddress (data_m t)) 0 (size_m t) nb0 0 of
                     (Some e, old, nb) \<Rightarrow> Threw e (put st' this (set_buffer t old))
                   | (None, old, nb) \<Rightarrow>
                       Done (put st' this
                         ((replace_data t old (new_data\<lparr>buffer_m := nb\<rparr>))
                            \<lparr>size_m := size_m t + 1\<rparr>)))))
      else
        (case construct_at (GetAddress (data_m t)) (size_m t) arg of
           Inl e \<Rightarrow> Threw e st
         | Inr b \<Rightarrow> Done (put st this ((set_buffer t b)\<lparr>size_m := size_m t + 1\<rparr>))))"

definition PushBack :: "'a env \<Rightarrow> nat \<Rightarrow> 'a \<Rightarrow> 'a store \<Rightarrow> 'a outcome" where
  "PushBack env this value st = EmplaceBack env this (copy_of env value) st"

definition PushBack_move :: "'a env \<Rightarrow> nat \<Rightarrow> 'a \<Rightarrow> 'a store \<Rightarrow> 'a outcome" where
  "PushBack_move env this value st = EmplaceBack env this (move_of env value) st"

definition PopBack :: "nat \<Rightarrow> 'a store \<Rightarrow> 'a outcome" where
  "PopBack this st =
     (let t = objs st this in
      if size_m t > 0 then
        Done (put st this
          ((set_buffer t (destroy_at (GetAddress (data_m t)) (size_m t - 1)))
             \<lparr>size_m := size_m t - 1\<rparr>))
      else Done st)"

text \<open>The in-place shift of Emplace, run when \<open>size_ != 0\<close>: the last element is
  move-constructed into the slot \<open>size_\<close>, \<open>move_backward\<close> moves the range from \<open>shift\<close>
  to \<open>size_\<close> (the moved-from last element included) one slot later, and the object
  at \<open>shift\<close> is destroyed. Both branches of the \<open>if constexpr\<close> are the same text.\<close>

definition shift_right :: "'a env \<Rightarrow> 'a block \<Rightarrow> nat \<Rightarrow> nat \<Rightarrow> error option \<times> 'a block" where
  "shift_right env blk size' shift =
     (case rd blk (size' - 1) of
        None \<Rightarrow> (Some Undefined, blk)
      | Some x \<Rightarrow>
          (case construct_at (blk[size' - 1 := Some (moved_from env x)]) size' (move_of env x) of
             Inl e \<Rightarrow> (Some e, blk)
           | Inr b1 \<Rightarrow>
               (case move_backward env b1 shift (size' - shift) (size' + 1) of
                  (Some e, b2) \<Rightarrow> (Some e, b2)
                | (None, b2) \<Rightarrow> (None, destroy_at b2 shift))))"

text \<open>\<open>Emplace(pos, args...)\<close>: the iterator \<open>pos\<close> is the index \<open>shift = pos - begin()\<close>; an
  iterator outside \<open>[begin(), end()]\<close> is undefined behaviour. The arguments are
  forwarded references, and \<open>Insert\<close> passes a \<open>const T&\<close>, which may refer to an
  element of the vector itself: what the construction of the new element yields then
  depends on the block at the moment the constructor runs. So \<open>args\<close> is a function of
  the block the arguments are read from, \<open>None\<close> when the construction throws: the old
  block, before the transfer, where Emplace reallocates; the block after the shift
  where it inserts in place. The iterator Emplace returns is not modelled.\<close>

definition Emplace_with ::
  "'a env \<Rightarrow> nat \<Rightarrow> nat \<Rightarrow> ('a block \<Rightarrow> 'a option) \<Rightarrow> 'a store \<Rightarrow> 'a outcome" where
  "Emplace_with env this shift args st =
     (let t = objs st this in
      if shift > size_m t then Threw Undefined st
      else if size_m t = Capacity t then
        (case RawMemory_ctor env (if size_m t = 0 then 1 else size_m t * 2) st of
           Inl e \<Rightarrow> Threw e st
         | Inr (new_data, st') \<Rightarrow>
             (case construct_at (GetAddress new_data) shift (args (GetAddress (data_m t))) of
                Inl e \<Rightarrow> Threw e st'
              | Inr nb0 \<Rightarrow>
                  (case transfer_n env (GetAddress (data_m t)) 0 shift nb0 0 of
                     (Some e, old1, nb1) \<Rightarrow> Threw e (put st' this (set_buffer t old1))
                   | (None, old1, nb1) \<Rightarrow>
                       (case transfer_n env old1 shift (size_m t - shift) nb1 (shift + 1) of
                          (Some e, old2, nb2) \<Rightarrow> Threw e (put st' this (set_buffer t old2))
                        | (None, old2, nb2) \<Rightarrow>
                            Done (put st' this
                              ((replace_data t old2 (new_data\<lparr>buffer_m := nb2\<rparr>))
                                 \<lparr>size_m := size_m t + 1\<rparr>))))))
      else
        (case (if size_m t \<noteq> 0 then shift_right env (GetAddress (data_m t)) (size_m t) shift
               else (None, GetAddress (data_m t))) of
           (Some e, b) \<Rightarrow> Threw e (put st this (set_buffer t b))
         | (None, b) \<Rightarrow>
             (case construct_at b shift (args b) of
                Inl e \<Rightarrow> Threw e (put st this (set_buffer t b))
              | Inr b' \<Rightarrow> Done (put st this ((set_buffer t b')\<lparr>size_m := size_m t + 1\<rparr>)))))"

text \<open>Emplace with arguments that are objects outside the block of the vector: \<open>arg\<close> is
  what the construction of the new element from them yields, whenever it runs.\<close>

definition Emplace :: "'a env \<Rightarrow> nat \<Rightarrow> nat \<Rightarrow> 'a option \<Rightarrow> 'a store \<Rightarrow> 'a outcome" where
  "Emplace env this shift arg st = Emplace_with env this shift (\<lambda>blk. arg) st"

text \<open>\<open>Insert(pos, const T& value)\<close> and \<open>Insert(pos, T&& value)\<close> of an object \<open>value\<close>
  outside the block of the vector.\<close>

definition Insert :: "'a env \<Rightarrow> nat \<Rightarrow> nat \<Rightarrow> 'a \<Rightarrow> 'a store \<Rightarrow> 'a outcome" where
  "Insert env this pos value st = Emplace env this pos (copy_of env value) st"

definition Insert_move :: "'a env \<Rightarrow> nat \<Rightarrow> nat \<Rightarrow> 'a \<Rightarrow> 'a store \<Rightarrow> 'a outcome" where
  "Insert_move env this pos value st = Emplace env this pos (move_of env value) st"

text \<open>\<open>Insert(pos, v[i])\<close>: the \<open>const T&\<close> refers to the element at index \<open>i\<close> of the
  vector itself, and is copied from the slot \<open>i\<close> of the block when the new element is
  constructed. Where the slot is raw by then (the slot at \<open>shift\<close>, destroyed after the
  in-place shift), the code reads a destroyed object; the model lets the construction
  fail.\<close>

definition Insert_own :: "'a env \<Rightarrow> nat \<Rightarrow> nat \<Rightarrow> nat \<Rightarrow> 'a store \<Rightarrow> 'a outcome" where
  "Insert_own env this pos i st =
     Emplace_with env this pos
       (\<lambda>blk. case rd blk i of None \<Rightarrow> None | Some v \<Rightarrow> copy_of env v) st"


text \<open>\<open>Erase(pos)\<close>: \<open>std::move(begin() + shift + 1, end(), begin() + shift)\<close>, then PopBack.
  A position that is not the index of an element is undefined behaviour.\<close>

definition Erase :: "'a env \<Rightarrow> nat \<Rightarrow> nat \<Rightarrow> 'a store \<Rightarrow> 'a outcome" where
  "Erase env this shift st =
     (let t = objs st this in
      if \<not> shift < size_m t then Threw Undefined st
      else
        (case move_n env (GetAddress (data_m t)) (shift + 1) (size_m t - (shift + 1)) shift of
           (Some e, b) \<Rightarrow> Threw e (put st this (set_buffer t b))
         | (None, b) \<Rightarrow> PopBack this (put st this (set_buffer t b))))"

subsection \<open>What a vector holds\<close>

text \<open>The elements of a vector, read in order from \<open>begin()\<close> to \<open>end()\<close>, and the
  invariant of the class: the block has \<open>capacity_\<close> slots, the first \<open>size_\<close> of them
  hold live objects and the others are raw.\<close>

definition elems :: "'a Vector \<Rightarrow> 'a list" where
  "elems v = map the (take (size_m v) (buffer_m (data_m v)))"

definition inv :: "'a Vector \<Rightarrow> bool" where
  "inv v \<longleftrightarrow>
     length (buffer_m (data_m v)) = capacity_m (data_m v) \<and>
     size_m v \<le> capacity_m (data_m v) \<and>
     buffer_m (data_m v) =
       map Some (elems v) @ replicate (capacity_m (data_m v) - size_m v) None"

text \<open>The store and the error of an outcome.\<close>

fun store_of :: "'a outcome \<Rightarrow> 'a store" where
  "store_of (Done st) = st"
| "store_of (Threw e st) = st"

fun thrown :: "'a outcome \<Rightarrow> error option" where
  "thrown (Done st) = None"
| "thrown (Threw e st) = Some e"

subsection \<open>Element types and stores to run the code on\<close>

text \<open>\<open>int_env\<close> is \<open>T = int\<close>: nothing throws and a moved-from \<open>int\<close> keeps its value.
  \<open>reset_env\<close> is an element type whose move empties its source, as
  \<open>std::unique_ptr\<close> does (its moved-from value is \<open>0\<close>, the null pointer).
  \<open>picky_env\<close> is an element type whose copy constructor and copy assignment throw
  on the value \<open>6\<close> and whose move constructor is not \<open>noexcept\<close>.
  \<open>moveonly_env\<close> is an element type that cannot be copied, so that the compile-time
  test is true and the reallocations move, whose move constructor and move assignment
  throw on the value \<open>6\<close> and leave their source \<open>0\<close> when they succeed.\<close>

definition int_env :: "int env" where
  "int_env = \<lparr>copy_throws = (\<lambda>x. False), move_throws = (\<lambda>x. False),
               move_assign_throws = (\<lambda>x. False), moved_from = (\<lambda>x. x),
               nothrow_move = True, value_init = Some 0, sizeof_T = 4,
               new_fails = (\<lambda>n. False)\<rparr>"

definition reset_env :: "int env" where
  "reset_env = \<lparr>copy_throws = (\<lambda>x. False), move_throws = (\<lambda>x. False),
                 move_assign_throws = (\<lambda>x. False), moved_from = (\<lambda>x. 0),
                 nothrow_move = True, value_init = Some 0, sizeof_T = 8,
                 new_fails = (\<lambda>n. False)\<rparr>"

definition picky_env :: "int env" where
  "picky_env = \<lparr>copy_throws = (\<lambda>x. x = 6), move_throws = (\<lambda>x. False),
                 move_assign_throws = (\<lambda>x. False), moved_from = (\<lambda>x. x),
                 nothrow_move = False, value_init = Some 0, sizeof_T = 8,
                 new_fails = (\<lambda>n. False)\<rparr>"

definition moveonly_env :: "int env" where
  "moveonly_env = \<lparr>copy_throws = (\<lambda>x. True), move_throws = (\<lambda>x. x = 6),
                    move_assign_throws = (\<lambda>x. x = 6), moved_from = (\<lambda>x. 0),
                    nothrow_move = True, value_init = Some 0, sizeof_T = 8,
                    new_fails = (\<lambda>n. False)\<rparr>"

text \<open>\<open>vec xs cap\<close> is the vector that holds \<open>xs\<close> in a block of \<open>cap\<close> slots, and
  \<open>two a b\<close> the store whose object \<open>0\<close> is \<open>a\<close> and whose object \<open>1\<close> is \<open>b\<close>.\<close>

definition vec :: "'a list \<Rightarrow> nat \<Rightarrow> 'a Vector" where
  "vec xs cap =
     \<lparr>data_m = \<lparr>buffer_m = map Some xs @ replicate (cap - length xs) None, capacity_m = cap\<rparr>,
      size_m = length xs\<rparr>"

definition two :: "'a Vector \<Rightarrow> 'a Vector \<Rightarrow> 'a store" where
  "two a b = \<lparr>objs = (\<lambda>i. if i = 0 then a else if i = 1 then b else Vector_default), allocs = []\<rparr>"

section \<open>Basic facts\<close>

lemma objs_put [simp]: "objs (put st this v) = (objs st)(this := v)"
  by (simp add: put_def)

lemma allocs_put [simp]: "allocs (put st this v) = allocs st"
  by (simp add: put_def)

lemma swap_values_eq: "swap_values a b = (b, a)"
  by (simp add: swap_values_def RawMemory_Swap_def)

lemma objs_Swap: "objs (Swap this other st) = (objs st)(this := objs st other, other := objs st this)"
  by (simp add: Swap_def swap_values_eq)

lemma allocs_Swap: "allocs (Swap this other st) = allocs st"
  by (simp add: Swap_def swap_values_eq)

lemma size_t_mul_mod: "size_t_mul a b = (a * b) mod 2 ^ 64"
proof -
  have "(int a * int b) mod 18446744073709551616 = int ((a * b) mod 2 ^ 64)"
    by (simp add: zmod_int)
  then show ?thesis by (simp add: size_t_mul_def)
qed

lemma slots_le: "size_t_mul n sz div sz \<le> n"
proof (cases "sz = 0")
  case True
  then show ?thesis by simp
next
  case False
  have "size_t_mul n sz div sz \<le> (n * sz) div sz"
    by (rule div_le_mono) (simp add: size_t_mul_mod)
  then show ?thesis using False by simp
qed

lemma fits_slots: "fits env n \<Longrightarrow> size_t_mul n (sizeof_T env) div sizeof_T env = n"
  by (simp add: fits_def size_t_mul_mod)

lemma RawMemory_ctor_Inl:
  "RawMemory_ctor env n st = Inl e \<Longrightarrow> e = BadAlloc \<and> n \<noteq> 0 \<and> alloc_fails env n"
  by (auto simp: RawMemory_ctor_def Allocate_def alloc_fails_def Let_def split: if_splits)

lemma RawMemory_ctor_Inr:
  "RawMemory_ctor env n st = Inr (m, st') \<Longrightarrow>
     m = \<lparr>buffer_m = replicate (size_t_mul n (sizeof_T env) div sizeof_T env) None,
          capacity_m = n\<rparr> \<and>
     objs st' = objs st \<and>
     allocs st' = (if n = 0 then allocs st else allocs st @ [n])"
  by (auto simp: RawMemory_ctor_def Allocate_def Let_def size_t_mul_mod split: if_splits)

lemma RawMemory_ctor_fits:
  "RawMemory_ctor env n st = Inr (m, st') \<Longrightarrow> fits env n \<Longrightarrow>
     m = \<lparr>buffer_m = replicate n None, capacity_m = n\<rparr> \<and> objs st' = objs st \<and>
     allocs st' = (if n = 0 then allocs st else allocs st @ [n])"
  using RawMemory_ctor_Inr[of env n st m st'] by (simp add: fits_slots)

lemma RawMemory_ctor_ok:
  "n = 0 \<or> \<not> alloc_fails env n \<Longrightarrow>
   RawMemory_ctor env n st =
     Inr (\<lparr>buffer_m = replicate n None, capacity_m = n\<rparr>,
          if n = 0 then st else st\<lparr>allocs := allocs st @ [n]\<rparr>)"
  by (auto simp: RawMemory_ctor_def Allocate_def alloc_fails_def Let_def)

lemma Capacity_replace_data [simp]: "Capacity (replace_data t old nd) = capacity_m nd"
  by (simp add: replace_data_def RawMemory_Swap_def Capacity_def)

lemma Capacity_size_upd [simp]: "Capacity (v\<lparr>size_m := n\<rparr>) = Capacity v"
  by (simp add: Capacity_def)

lemma Capacity_set_buffer [simp]: "Capacity (set_buffer v b) = Capacity v"
  by (simp add: Capacity_def set_buffer_def)

lemma size_set_buffer [simp]: "size_m (set_buffer v b) = size_m v"
  by (simp add: set_buffer_def)

lemma buffer_set_buffer [simp]: "buffer_m (data_m (set_buffer v b)) = b"
  by (simp add: set_buffer_def)

lemma set_buffer_same [simp]: "set_buffer v (buffer_m (data_m v)) = v"
  by (simp add: set_buffer_def)

lemma Done_store_of: "thrown r = None \<Longrightarrow> r = Done (store_of r)"
  by (cases r) simp_all

section \<open>Moves\<close>

text \<open>
  Claim C1, as amended. The move constructor of Vector leaves its source empty (length
  0, capacity 0) and the new vector is what the source was. The move assignment is a
  swap: the destination becomes what the source was, elements and order included, and
  the source becomes what the destination was; it is empty when the destination was.
  Here \<open>this\<close> is the destination B and \<open>other\<close> the source A.
\<close>

theorem Vector_move_exchanges:
  assumes "this \<noteq> other"
  shows "objs (Vector_move this other st) this = objs st other \<and>
         size_m (objs (Vector_move this other st) other) = 0 \<and>
         Capacity (objs (Vector_move this other st) other) = 0 \<and>
         objs (Vector_move_assign this other st) this = objs st other \<and>
         objs (Vector_move_assign this other st) other = objs st this"
  using assms
  by (simp add: Vector_move_def Vector_move_assign_def objs_Swap Vector_default_def
      RawMemory_default_def Capacity_def)

theorem Vector_move_exchanges_witness:
  "(0::nat) \<noteq> 1 \<and>
   elems (objs (Vector_move 0 1 (two (vec [] 0) (vec [1, 2, 3 :: int] 4))) 0) = [1, 2, 3] \<and>
   size_m (objs (Vector_move 0 1 (two (vec [] 0) (vec [1, 2, 3 :: int] 4))) 1) = 0 \<and>
   elems (objs (Vector_move_assign 0 1 (two (vec [7] 1) (vec [1, 2, 3 :: int] 4))) 0) = [1, 2, 3] \<and>
   elems (objs (Vector_move_assign 0 1 (two (vec [7] 1) (vec [1, 2, 3 :: int] 4))) 1) = [7]"
  using Vector_move_exchanges [of 0 1 "two (vec [] 0) (vec [1, 2, 3 :: int] 4)"]
        Vector_move_exchanges [of 0 1 "two (vec [7] 1) (vec [1, 2, 3 :: int] 4)"]
  by (simp add: two_def vec_def elems_def)

text \<open>
  Claim C1 as stated fails for the move assignment: moving A = [1, 2, 3] into B = [7]
  leaves A with length 1 and capacity 1, not empty.
\<close>

theorem Vector_move_assign_counterexample:
  "size_m (objs (Vector_move_assign 0 1 (two (vec [7 :: int] 1) (vec [1, 2, 3] 4))) 1) = 1 \<and>
   Capacity (objs (Vector_move_assign 0 1 (two (vec [7 :: int] 1) (vec [1, 2, 3] 4))) 1) = 1"
  by (simp add: Vector_move_assign_def objs_Swap two_def vec_def Capacity_def)

text \<open>
  Claim C2, as amended. The move constructor of RawMemory gives the new object the
  pointer and the capacity of its source. The move assignment is a swap: the
  destination takes the pointer and the capacity of the source, and the source takes
  those of the destination; it is null with capacity 0 when the destination was.
\<close>

theorem RawMemory_move_exchanges:
  "fst (RawMemory_move_ctor other) = other \<and>
   RawMemory_move_assign this rhs = (rhs, this)"
  by (simp add: RawMemory_move_ctor_def RawMemory_move_assign_def RawMemory_Swap_def)

text \<open>
  Claim C2 as stated fails for the move assignment: moving a block of two slots into
  a RawMemory that owns a block of one slot leaves the source with that block and
  capacity 1.
\<close>

theorem RawMemory_move_assign_counterexample:
  "snd (RawMemory_move_assign \<lparr>buffer_m = [None :: int option], capacity_m = 1\<rparr>
          \<lparr>buffer_m = [None, None], capacity_m = 2\<rparr>) =
     \<lparr>buffer_m = [None], capacity_m = 1\<rparr>"
  by (simp add: RawMemory_move_assign_def RawMemory_Swap_def)

text \<open>The move constructor of RawMemory does not touch its source either: it keeps the
  pointer it had, which the new object now holds too.\<close>

lemma RawMemory_move_ctor_source_kept: "snd (RawMemory_move_ctor other) = other"
  by (simp add: RawMemory_move_ctor_def)

section \<open>Self-assignment\<close>

text \<open>
  Claim C10. Copy-assigning a vector to itself changes nothing: the store after the
  assignment is the store before it, so length, capacity and every element are as
  they were, and the assignment does not throw.
\<close>

theorem Vector_copy_assign_self: "Vector_copy_assign env this this st = Done st"
  by (simp add: Vector_copy_assign_def)

section \<open>Reserve\<close>

lemma Reserve_small: "c \<le> Capacity (objs st this) \<Longrightarrow> Reserve env this c st = Done st"
  by (simp add: Reserve_def)

lemma Reserve_Done_Capacity:
  "Reserve env this c st = Done st' \<Longrightarrow> c \<le> Capacity (objs st' this)"
  by (auto simp: Reserve_def Let_def split: if_splits sum.splits prod.splits option.splits
      dest!: RawMemory_ctor_Inr)

text \<open>
  Claim C8. \<open>Reserve(c)\<close> on a vector whose capacity is at least \<open>c\<close> returns with the
  store as it was: length, elements and capacity are unchanged. So a second
  \<open>Reserve(c)\<close> after one that returned changes nothing.
\<close>

theorem Reserve_idempotent:
  "(c \<le> Capacity (objs st this) \<longrightarrow> Reserve env this c st = Done st) \<and>
   (\<forall>st'. Reserve env this c st = Done st' \<longrightarrow> Reserve env this c st' = Done st')"
  using Reserve_small Reserve_Done_Capacity by blast

theorem Reserve_idempotent_witness:
  "(2::nat) \<le> Capacity (objs (two (vec [1, 2::int] 4) (vec [] 0)) 0) \<and>
   Reserve int_env 0 2 (two (vec [1, 2] 4) (vec [] 0)) = Done (two (vec [1, 2] 4) (vec [] 0)) \<and>
   Capacity (objs (store_of (Reserve int_env 0 8 (two (vec [1, 2] 4) (vec [] 0)))) 0) = 8 \<and>
   Reserve int_env 0 8 (store_of (Reserve int_env 0 8 (two (vec [1, 2] 4) (vec [] 0)))) =
     Done (store_of (Reserve int_env 0 8 (two (vec [1, 2] 4) (vec [] 0))))"
proof -
  let ?st = "two (vec [1, 2::int] 4) (vec [] 0)"
  have a: "(2::nat) \<le> Capacity (objs ?st 0)" by code_simp
  have "thrown (Reserve int_env 0 8 ?st) = None" by code_simp
  then have b: "Reserve int_env 0 8 ?st = Done (store_of (Reserve int_env 0 8 ?st))"
    by (rule Done_store_of)
  have c: "Capacity (objs (store_of (Reserve int_env 0 8 ?st)) 0) = 8" by code_simp
  from a b c Reserve_idempotent [of 2 ?st 0 int_env] Reserve_idempotent [of 8 ?st 0 int_env]
  show ?thesis by blast
qed

section \<open>The invariant and the standard algorithms\<close>

lemma rd_Some: "rd b i = Some x \<longleftrightarrow> i < length b \<and> b ! i = Some x"
  by (simp add: rd_def)

lemma rd_None: "rd b i = None \<longleftrightarrow> (i < length b \<longrightarrow> b ! i = None)"
  by (simp add: rd_def)

lemma inv_nth:
  "inv v \<longleftrightarrow>
     length (buffer_m (data_m v)) = capacity_m (data_m v) \<and>
     size_m v \<le> capacity_m (data_m v) \<and>
     (\<forall>i < capacity_m (data_m v). (buffer_m (data_m v) ! i = None) = (size_m v \<le> i))"
  (is "?L \<longleftrightarrow> ?R")
proof
  assume l: ?L
  let ?b = "buffer_m (data_m v)"
  from l have len: "length ?b = capacity_m (data_m v)" and le: "size_m v \<le> capacity_m (data_m v)"
    and eq: "?b = map Some (elems v) @ replicate (capacity_m (data_m v) - size_m v) None"
    unfolding inv_def by blast+
  have lel: "length (elems v) = size_m v" using len le by (simp add: elems_def)
  have "(?b ! i = None) = (size_m v \<le> i)" if "i < capacity_m (data_m v)" for i
  proof -
    have "?b ! i = (map Some (elems v) @ replicate (capacity_m (data_m v) - size_m v) None) ! i"
      using eq by simp
    then show ?thesis using that lel by (auto simp: nth_append)
  qed
  with len le show ?R by blast
next
  assume r: ?R
  let ?b = "buffer_m (data_m v)"
  from r have len: "length ?b = capacity_m (data_m v)" and le: "size_m v \<le> capacity_m (data_m v)"
    and nn: "\<And>i. i < capacity_m (data_m v) \<Longrightarrow> (?b ! i = None) = (size_m v \<le> i)"
    by auto
  have "?b = map Some (elems v) @ replicate (capacity_m (data_m v) - size_m v) None"
  proof (rule nth_equalityI)
    show "length ?b = length (map Some (elems v) @ replicate (capacity_m (data_m v) - size_m v) None)"
      using len le by (simp add: elems_def)
  next
    fix i assume "i < length ?b"
    then have i: "i < capacity_m (data_m v)" using len by simp
    show "?b ! i = (map Some (elems v) @ replicate (capacity_m (data_m v) - size_m v) None) ! i"
    proof (cases "i < size_m v")
      case True
      then have "?b ! i \<noteq> None" using nn[OF i] by simp
      then show ?thesis using True len le i by (auto simp: nth_append elems_def)
    next
      case False
      then have "?b ! i = None" using nn[OF i] by simp
      then show ?thesis using False len le i by (auto simp: nth_append elems_def)
    qed
  qed
  with len le show ?L by (simp add: inv_def)
qed


lemma ucopy_length: "uninitialized_copy_n env src s n dst d = (e, r) \<Longrightarrow> length r = length dst"
proof (induction n arbitrary: s dst d e r)
  case 0
  then show ?case by simp
next
  case (Suc n)
  show ?case
  proof (cases "uninitialized_copy_n env src (Suc s) n (dst[d := Some (the (rd src s))]) (Suc d)")
    case (Pair e' r')
    from Suc.IH[OF Pair] have "length r' = length dst" by simp
    then show ?thesis using Suc.prems Pair
      by (auto split: option.splits if_splits)
  qed
qed

lemma ucopy_ok:
  assumes "\<forall>i<n. \<exists>x. rd src (s + i) = Some x \<and> \<not> copy_throws env x" and "d + n \<le> length dst"
  shows "\<exists>r. uninitialized_copy_n env src s n dst d = (None, r) \<and> length r = length dst \<and>
           (\<forall>i<length dst. r ! i = (if d \<le> i \<and> i < d + n then src ! (s + (i - d)) else dst ! i))"
  using assms
proof (induction n arbitrary: s dst d)
  case 0
  then show ?case by auto
next
  case (Suc n)
  from Suc.prems(1) obtain x where x: "rd src s = Some x" "\<not> copy_throws env x"
    by (metis add.right_neutral zero_less_Suc)
  have p1: "\<forall>i<n. \<exists>x. rd src (Suc s + i) = Some x \<and> \<not> copy_throws env x"
    using Suc.prems(1) by (metis Suc_less_eq add_Suc_shift)
  have p2: "Suc d + n \<le> length (dst[d := Some x])" using Suc.prems(2) by simp
  from Suc.IH[OF p1 p2] obtain r where
    r: "uninitialized_copy_n env src (Suc s) n (dst[d := Some x]) (Suc d) = (None, r)"
       "length r = length dst"
       "\<forall>i<length dst. r ! i = (if Suc d \<le> i \<and> i < Suc d + n then src ! (Suc s + (i - Suc d)) else dst[d := Some x] ! i)"
    by auto
  have "\<forall>i<length dst. r ! i = (if d \<le> i \<and> i < d + Suc n then src ! (s + (i - d)) else dst ! i)"
  proof (intro allI impI)
    fix i assume i: "i < length dst"
    show "r ! i = (if d \<le> i \<and> i < d + Suc n then src ! (s + (i - d)) else dst ! i)"
    proof (cases "i = d")
      case True
      then show ?thesis using r(3) i x(1) by (simp add: rd_Some)
    next
      case False
      then have "Suc s + (i - Suc d) = s + (i - d)" if "d \<le> i" using that by arith
      then show ?thesis using r(3) i False by (auto simp: nth_list_update)
    qed
  qed
  then show ?case using x r Suc.prems(2) by simp
qed

lemma ucopy_fail:
  assumes "uninitialized_copy_n env src s n dst d = (Some e, r)"
      and "\<forall>i<length dst. d \<le> i \<and> i < d + n \<longrightarrow> dst ! i = None"
  shows "r = dst"
  using assms
proof (induction n arbitrary: s dst d r)
  case 0
  then show ?case by simp
next
  case (Suc n)
  show ?case
  proof (cases "rd src s")
    case None
    then show ?thesis using Suc.prems(1) by simp
  next
    case (Some x)
    show ?thesis
    proof (cases "\<not> d < length dst \<or> copy_throws env x")
      case True
      then show ?thesis using Suc.prems(1) Some by (auto split: if_splits)
    next
      case False
      then obtain r' where
        r': "uninitialized_copy_n env src (Suc s) n (dst[d := Some x]) (Suc d) = (Some e, r')"
            "r = r'[d := None]"
        using Suc.prems(1) Some by (auto split: option.splits prod.splits)
      have "\<forall>i<length (dst[d := Some x]). Suc d \<le> i \<and> i < Suc d + n \<longrightarrow> dst[d := Some x] ! i = None"
        using Suc.prems(2) by (auto simp: nth_list_update)
      from Suc.IH[OF r'(1) this] have "r' = dst[d := Some x]" .
      moreover have "dst ! d = None" using Suc.prems(2) False by simp
      ultimately show ?thesis using r'(2) by (metis list_update_id list_update_overwrite)
    qed
  qed
qed

lemma ucopy_error:
  assumes "uninitialized_copy_n env src s n dst d = (Some e, r)"
      and "\<forall>i<n. rd src (s + i) \<noteq> None" and "d + n \<le> length dst"
  shows "e = ElemThrow \<and> (\<exists>i<n. copy_throws env (the (rd src (s + i))))"
  using assms
proof (induction n arbitrary: s dst d r)
  case 0
  then show ?case by simp
next
  case (Suc n)
  from Suc.prems(2) obtain x where x: "rd src s = Some x"
    by (metis add.right_neutral not_None_eq zero_less_Suc)
  show ?case
  proof (cases "copy_throws env x")
    case True
    then show ?thesis using Suc.prems x by (auto split: if_splits)
  next
    case False
    then obtain r' where
      r': "uninitialized_copy_n env src (Suc s) n (dst[d := Some x]) (Suc d) = (Some e, r')"
      using Suc.prems(1,3) x by (auto split: option.splits prod.splits if_splits)
    have p1: "\<forall>i<n. rd src (Suc s + i) \<noteq> None"
      using Suc.prems(2) by (metis Suc_less_eq add_Suc_shift)
    have p2: "Suc d + n \<le> length (dst[d := Some x])" using Suc.prems(3) by simp
    from Suc.IH[OF r' p1 p2] obtain i where "e = ElemThrow" "i < n" "copy_throws env (the (rd src (Suc s + i)))"
      by auto
    then show ?thesis by (metis Suc_less_eq add_Suc_shift)
  qed
qed

lemma rd_update_other: "i \<noteq> j \<Longrightarrow> rd (b[j := v]) i = rd b i"
  by (simp add: rd_def)

lemma rd_update_same: "rd (b[j := Some v]) j \<noteq> None \<longleftrightarrow> j < length b"
  by (simp add: rd_def)

lemma ucopy_None:
  assumes "uninitialized_copy_n env src s n dst d = (None, r)"
  shows "length r = length dst \<and>
         (\<forall>i<length dst. r ! i = (if d \<le> i \<and> i < d + n then src ! (s + (i - d)) else dst ! i))"
  using assms
proof (induction n arbitrary: s dst d r)
  case 0
  then show ?case by auto
next
  case (Suc n)
  from Suc.prems obtain x where x: "rd src s = Some x" "d < length dst" "\<not> copy_throws env x"
    by (auto split: option.splits if_splits)
  with Suc.prems have rec: "uninitialized_copy_n env src (Suc s) n (dst[d := Some x]) (Suc d) = (None, r)"
    by (auto split: option.splits prod.splits)
  from Suc.IH[OF rec] have ih: "length r = length dst"
    "\<forall>i<length dst. r ! i = (if Suc d \<le> i \<and> i < Suc d + n then src ! (Suc s + (i - Suc d)) else dst[d := Some x] ! i)"
    by auto
  have "r ! i = (if d \<le> i \<and> i < d + Suc n then src ! (s + (i - d)) else dst ! i)" if i: "i < length dst" for i
  proof (cases "i = d")
    case True
    then show ?thesis using ih(2) i x(1) by (simp add: rd_Some)
  next
    case False
    then have "Suc s + (i - Suc d) = s + (i - d)" if "d \<le> i" using that by arith
    then show ?thesis using ih(2) i False by (auto simp: nth_list_update)
  qed
  with ih(1) show ?case by blast
qed


lemma ucopy_None_bound:
  "uninitialized_copy_n env src s n dst d = (None, r) \<Longrightarrow> n = 0 \<or> d + n \<le> length dst"
proof (induction n arbitrary: s dst d r)
  case 0
  then show ?case by simp
next
  case (Suc n)
  from Suc.prems obtain x where x: "rd src s = Some x" "d < length dst" "\<not> copy_throws env x"
    by (auto split: option.splits if_splits)
  with Suc.prems have "uninitialized_copy_n env src (Suc s) n (dst[d := Some x]) (Suc d) = (None, r)"
    by (auto split: option.splits prod.splits)
  from Suc.IH[OF this] x(2) show ?case by auto
qed

lemma copy_n_None:
  assumes "copy_n env src s n dst d = (None, r)"
  shows "length r = length dst \<and>
         (\<forall>i<length dst. r ! i = (if d \<le> i \<and> i < d + n then src ! (s + (i - d)) else dst ! i))"
  using assms
proof (induction n arbitrary: s dst d r)
  case 0
  then show ?case by auto
next
  case (Suc n)
  from Suc.prems obtain x y where x: "rd src s = Some x" "rd dst d = Some y" "\<not> copy_throws env x"
    by (auto split: option.splits if_splits)
  with Suc.prems have rec: "copy_n env src (Suc s) n (dst[d := Some x]) (Suc d) = (None, r)"
    by auto
  from Suc.IH[OF rec] have ih: "length r = length dst"
    "\<forall>i<length dst. r ! i = (if Suc d \<le> i \<and> i < Suc d + n then src ! (Suc s + (i - Suc d)) else dst[d := Some x] ! i)"
    by auto
  have "r ! i = (if d \<le> i \<and> i < d + Suc n then src ! (s + (i - d)) else dst ! i)" if i: "i < length dst" for i
  proof (cases "i = d")
    case True
    then show ?thesis using ih(2) i x(1) by (simp add: rd_Some)
  next
    case False
    then have "Suc s + (i - Suc d) = s + (i - d)" if "d \<le> i" using that by arith
    then show ?thesis using ih(2) i False by (auto simp: nth_list_update)
  qed
  with ih(1) show ?case by blast
qed

lemma copy_n_ok:
  assumes "\<forall>i<n. \<exists>x. rd src (s + i) = Some x \<and> \<not> copy_throws env x"
      and "\<forall>i<n. rd dst (d + i) \<noteq> None"
  shows "\<exists>r. copy_n env src s n dst d = (None, r)"
  using assms
proof (induction n arbitrary: s dst d)
  case 0
  then show ?case by simp
next
  case (Suc n)
  from Suc.prems(1) obtain x where x: "rd src s = Some x" "\<not> copy_throws env x"
    by (metis add.right_neutral zero_less_Suc)
  from Suc.prems(2) obtain y where y: "rd dst d = Some y"
    by (metis add.right_neutral not_None_eq zero_less_Suc)
  have p1: "\<forall>i<n. \<exists>x. rd src (Suc s + i) = Some x \<and> \<not> copy_throws env x"
    using Suc.prems(1) by (metis Suc_less_eq add_Suc_shift)
  have p2: "\<forall>i<n. rd (dst[d := Some x]) (Suc d + i) \<noteq> None"
  proof (intro allI impI)
    fix i assume "i < n"
    then have "rd dst (d + Suc i) \<noteq> None" using Suc.prems(2) by (metis Suc_less_eq)
    then show "rd (dst[d := Some x]) (Suc d + i) \<noteq> None" by (simp add: rd_update_other)
  qed
  from Suc.IH[OF p1 p2] show ?case using x y by simp
qed


lemma copy_n_error:
  assumes "copy_n env src s n dst d = (Some e, r)"
      and "\<forall>i<n. rd src (s + i) \<noteq> None" and "\<forall>i<n. rd dst (d + i) \<noteq> None"
  shows "e = ElemThrow"
  using assms
proof (induction n arbitrary: s dst d)
  case 0
  then show ?case by simp
next
  case (Suc n)
  from Suc.prems(2) obtain x where x: "rd src s = Some x"
    by (metis add.right_neutral not_None_eq zero_less_Suc)
  from Suc.prems(3) obtain y where y: "rd dst d = Some y"
    by (metis add.right_neutral not_None_eq zero_less_Suc)
  show ?case
  proof (cases "copy_throws env x")
    case True
    then show ?thesis using Suc.prems(1) x y by simp
  next
    case False
    then have rec: "copy_n env src (Suc s) n (dst[d := Some x]) (Suc d) = (Some e, r)"
      using Suc.prems(1) x y by simp
    have p1: "\<forall>i<n. rd src (Suc s + i) \<noteq> None"
      using Suc.prems(2) by (metis Suc_less_eq add_Suc_shift)
    have p2: "\<forall>i<n. rd (dst[d := Some x]) (Suc d + i) \<noteq> None"
    proof (intro allI impI)
      fix i assume "i < n"
      then have "rd dst (d + Suc i) \<noteq> None" using Suc.prems(3) by (metis Suc_less_eq)
      then show "rd (dst[d := Some x]) (Suc d + i) \<noteq> None" by (simp add: rd_update_other)
    qed
    from Suc.IH[OF rec p1 p2] show ?thesis .
  qed
qed


lemma destroy_n_nth:
  "length (destroy_n blk off n) = length blk \<and>
   (\<forall>i<length blk. destroy_n blk off n ! i = (if off \<le> i \<and> i < off + n then None else blk ! i))"
proof (induction n arbitrary: blk off)
  case 0
  then show ?case by auto
next
  case (Suc n)
  have "length (destroy_n (blk[off := None]) (Suc off) n) = length blk"
    using Suc.IH[of "blk[off := None]" "Suc off"] by simp
  moreover have "destroy_n (blk[off := None]) (Suc off) n ! i =
      (if off \<le> i \<and> i < off + Suc n then None else blk ! i)" if "i < length blk" for i
    using Suc.IH[of "blk[off := None]" "Suc off"] that by (auto simp: nth_list_update)
  ultimately show ?case by simp
qed

section \<open>Copy construction and copy assignment\<close>

lemma inv_length: "inv v \<Longrightarrow> length (buffer_m (data_m v)) = capacity_m (data_m v)"
  using inv_nth by blast

lemma inv_size_le: "inv v \<Longrightarrow> size_m v \<le> capacity_m (data_m v)"
  using inv_nth by blast

lemma inv_length_elems: "inv v \<Longrightarrow> length (elems v) = size_m v"
  using inv_length[of v] inv_size_le[of v] by (simp add: elems_def)

lemma inv_live:
  assumes "inv v" and "i < size_m v"
  shows "rd (buffer_m (data_m v)) i = Some (elems v ! i)"
proof -
  have "buffer_m (data_m v) ! i \<noteq> None" using assms by (simp add: inv_nth)
  moreover have "i < length (buffer_m (data_m v))"
    using assms inv_length[of v] inv_size_le[of v] by simp
  ultimately show ?thesis using assms(2) by (auto simp: rd_def elems_def)
qed

lemma inv_raw: "inv v \<Longrightarrow> size_m v \<le> i \<Longrightarrow> i < capacity_m (data_m v) \<Longrightarrow> buffer_m (data_m v) ! i = None"
  by (simp add: inv_nth)

lemma elems_nth: "inv v \<Longrightarrow> i < size_m v \<Longrightarrow> buffer_m (data_m v) ! i = Some (elems v ! i)"
  using inv_live[of v i] by (simp add: rd_Some)

lemma elems_eqI:
  assumes "size_m v = length xs" and "length xs \<le> length (buffer_m (data_m v))"
      and "\<And>i. i < length xs \<Longrightarrow> buffer_m (data_m v) ! i = Some (xs ! i)"
  shows "elems v = xs"
  using assms by (auto simp: elems_def intro!: nth_equalityI)

lemma inv_vec: "length xs \<le> cap \<Longrightarrow> inv (vec xs cap)"
  by (auto simp: inv_nth vec_def nth_append)

lemma elems_vec: "elems (vec xs cap) = xs"
  by (simp add: elems_def vec_def comp_def)


lemma vec_eqI:
  assumes "size_m v = length xs" and "capacity_m (data_m v) = cap" and "length (buffer_m (data_m v)) = cap"
     and "length xs \<le> cap"
     and "\<And>i. i < cap \<Longrightarrow> buffer_m (data_m v) ! i = (if i < length xs then Some (xs ! i) else None)"
  shows "v = vec xs cap"
proof -
  have "buffer_m (data_m v) = map Some xs @ replicate (cap - length xs) None"
    using assms by (auto intro!: nth_equalityI simp: nth_append)
  then show ?thesis using assms(1,2) by (simp add: vec_def)
qed

lemma inv_src_live:
  assumes "inv r"
  shows "\<forall>i<size_m r. rd (buffer_m (data_m r)) (0 + i) \<noteq> None"
  using inv_live[OF assms] by simp

lemma copy_construct_Inl: "copy_construct env r st = (Inl e, st') \<Longrightarrow> objs st' = objs st"
  by (auto simp: copy_construct_def split: sum.splits prod.splits option.splits
      dest!: RawMemory_ctor_Inr)

lemma copy_construct_Inr:
  assumes "inv r" and "copy_construct env r st = (Inr v, st')"
  shows "v = vec (elems r) (size_m r) \<and> objs st' = objs st \<and>
         allocs st' = (if size_m r = 0 then allocs st else allocs st @ [size_m r])"
proof -
  from assms(2) obtain d b where
    d: "RawMemory_ctor env (size_m r) st = Inr (d, st')"
    and b: "uninitialized_copy_n env (buffer_m (data_m r)) 0 (size_m r) (buffer_m d) 0 = (None, b)"
    and v: "v = \<lparr>data_m = d\<lparr>buffer_m := b\<rparr>, size_m = size_m r\<rparr>"
    by (auto simp: copy_construct_def GetAddress_def split: sum.splits prod.splits option.splits)
  let ?k = "size_t_mul (size_m r) (sizeof_T env) div sizeof_T env"
  from RawMemory_ctor_Inr[OF d] have d0: "d = \<lparr>buffer_m = replicate ?k None, capacity_m = size_m r\<rparr>"
    and d'': "objs st' = objs st" "allocs st' = (if size_m r = 0 then allocs st else allocs st @ [size_m r])"
    by auto
  from ucopy_None_bound[OF b] d0 have "size_m r \<le> ?k" by auto
  with slots_le[of "size_m r" "sizeof_T env"] have "?k = size_m r" by simp
  with d0 d'' have d': "d = \<lparr>buffer_m = replicate (size_m r) None, capacity_m = size_m r\<rparr>"
    "objs st' = objs st" "allocs st' = (if size_m r = 0 then allocs st else allocs st @ [size_m r])"
    by simp_all
  from ucopy_None[OF b] d'(1) have len: "length b = size_m r"
    and nth: "\<And>i. i < size_m r \<Longrightarrow> b ! i = buffer_m (data_m r) ! i"
    by auto
  have "v = vec (elems r) (size_m r)"
  proof (rule vec_eqI)
    show "size_m v = length (elems r)" using v assms(1) by (simp add: inv_length_elems)
    show "capacity_m (data_m v) = size_m r" using v d'(1) by simp
    show "length (buffer_m (data_m v)) = size_m r" using v len by simp
    show "length (elems r) \<le> size_m r" using assms(1) by (simp add: inv_length_elems)
    show "buffer_m (data_m v) ! i = (if i < length (elems r) then Some (elems r ! i) else None)"
      if "i < size_m r" for i
      using that v nth[OF that] elems_nth[OF assms(1) that] assms(1) by (simp add: inv_length_elems)
  qed
  with d' show ?thesis by simp
qed

lemma copy_construct_ok:
  assumes "inv r" and "size_m r = 0 \<or> \<not> alloc_fails env (size_m r)"
      and "\<forall>x\<in>set (elems r). \<not> copy_throws env x"
  shows "\<exists>v st'. copy_construct env r st = (Inr v, st')"
proof -
  have src: "\<forall>i<size_m r. \<exists>x. rd (buffer_m (data_m r)) (0 + i) = Some x \<and> \<not> copy_throws env x"
  proof (intro allI impI)
    fix i assume i: "i < size_m r"
    then have "elems r ! i \<in> set (elems r)" using assms(1) by (simp add: inv_length_elems)
    then show "\<exists>x. rd (buffer_m (data_m r)) (0 + i) = Some x \<and> \<not> copy_throws env x"
      using inv_live[OF assms(1) i] assms(3) by auto
  qed
  have "0 + size_m r \<le> length (replicate (size_m r) (None :: 'a option))" by simp
  from ucopy_ok[OF src this] obtain b where
    "uninitialized_copy_n env (buffer_m (data_m r)) 0 (size_m r) (replicate (size_m r) None) 0 = (None, b)"
    by blast
  then show ?thesis using assms(2)
    by (simp add: copy_construct_def GetAddress_def RawMemory_ctor_ok)
qed

lemma copy_assign_grow_Done:
  assumes "this \<noteq> rhs" and "inv (objs st rhs)" and "size_m (objs st rhs) > Capacity (objs st this)"
     and "thrown (Vector_copy_assign env this rhs st) = None"
  shows "objs (store_of (Vector_copy_assign env this rhs st)) =
           (objs st)(this := vec (elems (objs st rhs)) (size_m (objs st rhs))) \<and>
         allocs (store_of (Vector_copy_assign env this rhs st)) = allocs st @ [size_m (objs st rhs)]"
proof -
  obtain res st1 where cc: "copy_construct env (objs st rhs) st = (res, st1)" by (cases "copy_construct env (objs st rhs) st")
  show ?thesis
  proof (cases res)
    case (Inl e)
    then show ?thesis using assms cc by (simp add: Vector_copy_assign_def)
  next
    case (Inr v)
    from copy_construct_Inr[OF assms(2) cc[unfolded Inr]] assms(3)
    have "v = vec (elems (objs st rhs)) (size_m (objs st rhs))" "objs st1 = objs st"
      "allocs st1 = allocs st @ [size_m (objs st rhs)]" by auto
    then show ?thesis using assms(1,3) cc Inr
      by (simp add: Vector_copy_assign_def swap_values_eq Let_def)
  qed
qed

lemma copy_assign_grow_Threw:
  assumes "this \<noteq> rhs" and "size_m (objs st rhs) > Capacity (objs st this)"
     and "thrown (Vector_copy_assign env this rhs st) \<noteq> None"
  shows "objs (store_of (Vector_copy_assign env this rhs st)) = objs st"
proof -
  obtain res st1 where cc: "copy_construct env (objs st rhs) st = (res, st1)" by (cases "copy_construct env (objs st rhs) st")
  show ?thesis
  proof (cases res)
    case (Inl e)
    then show ?thesis using assms cc copy_construct_Inl[OF cc[unfolded Inl]] by (simp add: Vector_copy_assign_def)
  next
    case (Inr v)
    then show ?thesis using assms cc
      by (simp add: Vector_copy_assign_def swap_values_eq Let_def)
  qed
qed

lemma copy_assign_grow_ok:
  assumes "this \<noteq> rhs" and "inv (objs st rhs)" and "size_m (objs st rhs) > Capacity (objs st this)"
     and "\<not> alloc_fails env (size_m (objs st rhs))"
     and "\<forall>x\<in>set (elems (objs st rhs)). \<not> copy_throws env x"
  shows "thrown (Vector_copy_assign env this rhs st) = None"
proof -
  from copy_construct_ok[OF assms(2) _ assms(5), where st = st] assms(4)
  obtain v st' where "copy_construct env (objs st rhs) st = (Inr v, st')" by blast
  then show ?thesis using assms(1,3) by (simp add: Vector_copy_assign_def swap_values_eq Let_def)
qed

lemma inv_src_ok:
  assumes "inv r" and "\<forall>x\<in>set (elems r). \<not> copy_throws env x" and "n \<le> size_m r"
  shows "\<forall>i<n. \<exists>x. rd (buffer_m (data_m r)) (0 + i) = Some x \<and> \<not> copy_throws env x"
proof (intro allI impI)
  fix i assume "i < n"
  then have i: "i < size_m r" using assms(3) by simp
  then have "elems r ! i \<in> set (elems r)" using assms(1) by (simp add: inv_length_elems)
  then show "\<exists>x. rd (buffer_m (data_m r)) (0 + i) = Some x \<and> \<not> copy_throws env x"
    using inv_live[OF assms(1) i] assms(2) by auto
qed

lemma inv_dst_live:
  assumes "inv t" and "n \<le> size_m t"
  shows "\<forall>i<n. rd (buffer_m (data_m t)) (0 + i) \<noteq> None"
  using inv_live[OF assms(1)] assms(2) by simp

lemma copy_assign_shrink_ok:
  assumes "this \<noteq> rhs" and "inv (objs st this)" and "inv (objs st rhs)"
     and "size_m (objs st rhs) < size_m (objs st this)"
     and "\<forall>x\<in>set (elems (objs st rhs)). \<not> copy_throws env x"
  shows "thrown (Vector_copy_assign env this rhs st) = None"
proof -
  let ?t = "objs st this" and ?r = "objs st rhs"
  have cap: "\<not> size_m ?r > Capacity ?t"
    using assms(4) inv_size_le[OF assms(2)] by (simp add: Capacity_def)
  from copy_n_ok[OF inv_src_ok[OF assms(3,5) order_refl] inv_dst_live[OF assms(2)]] assms(4)
  obtain b where "copy_n env (buffer_m (data_m ?r)) 0 (size_m ?r) (buffer_m (data_m ?t)) 0 = (None, b)"
    by (metis less_imp_le_nat)
  then show ?thesis using assms(1,4) cap
    by (simp add: Vector_copy_assign_def Let_def Size_def GetAddress_def)
qed

lemma copy_assign_shrink_Done:
  assumes "this \<noteq> rhs" and "inv (objs st this)" and "inv (objs st rhs)"
     and "size_m (objs st rhs) < size_m (objs st this)"
     and "thrown (Vector_copy_assign env this rhs st) = None"
  shows "store_of (Vector_copy_assign env this rhs st) =
           put st this (vec (elems (objs st rhs)) (Capacity (objs st this)))"
proof -
  let ?t = "objs st this" and ?r = "objs st rhs"
  have cap: "\<not> size_m ?r > Capacity ?t"
    using assms(4) inv_size_le[OF assms(2)] by (simp add: Capacity_def)
  obtain e b where c: "copy_n env (buffer_m (data_m ?r)) 0 (size_m ?r) (buffer_m (data_m ?t)) 0 = (e, b)"
    by (cases "copy_n env (buffer_m (data_m ?r)) 0 (size_m ?r) (buffer_m (data_m ?t)) 0")
  have e: "e = None" using assms(1,4,5) cap c
    by (cases e) (simp_all add: Vector_copy_assign_def Let_def Size_def GetAddress_def)
  let ?b' = "destroy_n b (size_m ?r) (size_m ?t - size_m ?r)"
  let ?v = "(set_buffer ?t ?b')\<lparr>size_m := size_m ?r\<rparr>"
  have res: "store_of (Vector_copy_assign env this rhs st) = put st this ?v"
    using assms(1,4) cap c e
    by (simp add: Vector_copy_assign_def Let_def Size_def GetAddress_def)
  from copy_n_None[OF c[unfolded e]] have len: "length b = length (buffer_m (data_m ?t))"
    and nth: "\<And>i. i < length (buffer_m (data_m ?t)) \<Longrightarrow>
        b ! i = (if i < size_m ?r then buffer_m (data_m ?r) ! i else buffer_m (data_m ?t) ! i)"
    by auto
  have "?v = vec (elems ?r) (Capacity ?t)"
  proof (rule vec_eqI)
    show "size_m ?v = length (elems ?r)" using assms(3) by (simp add: inv_length_elems)
    show "capacity_m (data_m ?v) = Capacity ?t" by (simp add: Capacity_def set_buffer_def)
    show "length (buffer_m (data_m ?v)) = Capacity ?t"
      using len inv_length[OF assms(2)] by (simp add: destroy_n_nth Capacity_def)
    show "length (elems ?r) \<le> Capacity ?t"
      using cap assms(3) by (simp add: inv_length_elems)
    show "buffer_m (data_m ?v) ! i = (if i < length (elems ?r) then Some (elems ?r ! i) else None)"
      if "i < Capacity ?t" for i
    proof -
      have i: "i < length (buffer_m (data_m ?t))" using that inv_length[OF assms(2)]
        by (simp add: Capacity_def)
      show ?thesis
      proof (cases "i < size_m ?r")
        case True
        then show ?thesis using i len nth[OF i] elems_nth[OF assms(3) True] assms(3)
          by (simp add: destroy_n_nth inv_length_elems)
      next
        case False
        then show ?thesis using i len nth[OF i] inv_raw[OF assms(2), of i] that assms(3)
          by (auto simp: destroy_n_nth inv_length_elems Capacity_def)
      qed
    qed
  qed
  with res show ?thesis by simp
qed

text \<open>
  Claim C4. Copy-assigning \<open>rhs\<close> to another vector \<open>this\<close> whose capacity is less than
  the length of \<open>rhs\<close>: when the allocation of \<open>rhs.size_\<close> slots succeeds and no copy
  of an element throws, the assignment returns; when it returns, exactly one
  allocation was made, of exactly \<open>rhs.size_\<close> slots, the destination has the elements
  of the source, its length and its capacity are \<open>rhs.size_\<close>, and the source is
  unchanged; when it throws, every vector is exactly as it was before.
\<close>

theorem copy_assign_insufficient_capacity:
  assumes "this \<noteq> rhs" and "inv (objs st rhs)"
      and "size_m (objs st rhs) > Capacity (objs st this)"
  shows "(\<not> alloc_fails env (size_m (objs st rhs)) \<and>
          (\<forall>x\<in>set (elems (objs st rhs)). \<not> copy_throws env x) \<longrightarrow>
            thrown (Vector_copy_assign env this rhs st) = None) \<and>
         (thrown (Vector_copy_assign env this rhs st) = None \<longrightarrow>
            allocs (store_of (Vector_copy_assign env this rhs st)) =
              allocs st @ [size_m (objs st rhs)] \<and>
            elems (objs (store_of (Vector_copy_assign env this rhs st)) this) = elems (objs st rhs) \<and>
            size_m (objs (store_of (Vector_copy_assign env this rhs st)) this) = size_m (objs st rhs) \<and>
            Capacity (objs (store_of (Vector_copy_assign env this rhs st)) this) = size_m (objs st rhs) \<and>
            objs (store_of (Vector_copy_assign env this rhs st)) rhs = objs st rhs) \<and>
         (thrown (Vector_copy_assign env this rhs st) \<noteq> None \<longrightarrow>
            objs (store_of (Vector_copy_assign env this rhs st)) = objs st)"
proof (intro conjI impI)
  assume "\<not> alloc_fails env (size_m (objs st rhs)) \<and>
          (\<forall>x\<in>set (elems (objs st rhs)). \<not> copy_throws env x)"
  then show "thrown (Vector_copy_assign env this rhs st) = None"
    using copy_assign_grow_ok[OF assms] by blast
next
  assume d: "thrown (Vector_copy_assign env this rhs st) = None"
  note r = copy_assign_grow_Done[OF assms d]
  show "allocs (store_of (Vector_copy_assign env this rhs st)) = allocs st @ [size_m (objs st rhs)]"
    using r by simp
  show "elems (objs (store_of (Vector_copy_assign env this rhs st)) this) = elems (objs st rhs)"
    using r by (simp add: elems_vec)
  show "size_m (objs (store_of (Vector_copy_assign env this rhs st)) this) = size_m (objs st rhs)"
    using r assms(2) by (simp add: vec_def inv_length_elems)
  show "Capacity (objs (store_of (Vector_copy_assign env this rhs st)) this) = size_m (objs st rhs)"
    using r by (simp add: vec_def Capacity_def)
  show "objs (store_of (Vector_copy_assign env this rhs st)) rhs = objs st rhs"
    using r assms(1) by simp
next
  assume "thrown (Vector_copy_assign env this rhs st) \<noteq> None"
  then show "objs (store_of (Vector_copy_assign env this rhs st)) = objs st"
    using copy_assign_grow_Threw[OF assms(1,3)] by blast
qed

theorem copy_assign_insufficient_capacity_witness:
  "thrown (Vector_copy_assign int_env 0 1 (two (vec [1] 1) (vec [5, 6, 7] 4))) = None \<and>
   allocs (store_of (Vector_copy_assign int_env 0 1 (two (vec [1] 1) (vec [5, 6, 7] 4)))) = [3] \<and>
   elems (objs (store_of (Vector_copy_assign int_env 0 1 (two (vec [1] 1) (vec [5, 6, 7] 4)))) 0) =
     [5, 6, 7] \<and>
   thrown (Vector_copy_assign picky_env 0 1 (two (vec [1] 1) (vec [5, 6, 7] 4))) = Some ElemThrow \<and>
   objs (store_of (Vector_copy_assign picky_env 0 1 (two (vec [1] 1) (vec [5, 6, 7] 4)))) 0 = vec [1] 1"
proof -
  let ?st = "two (vec [1 :: int] 1) (vec [5, 6, 7] 4)"
  have h1: "(0::nat) \<noteq> 1" by simp
  have h2: "inv (objs ?st 1)" by (simp add: two_def inv_vec)
  have h3: "size_m (objs ?st 1) > Capacity (objs ?st 0)" by code_simp
  have e: "size_m (objs ?st 1) = 3" "elems (objs ?st 1) = [5, 6, 7]" "allocs ?st = []"
    "objs ?st 0 = vec [1] 1"
    by (simp_all add: two_def elems_vec) (simp add: vec_def)
  have a: "\<not> alloc_fails int_env (size_m (objs ?st 1)) \<and>
           (\<forall>x\<in>set (elems (objs ?st 1)). \<not> copy_throws int_env x)"
    by code_simp
  have b: "thrown (Vector_copy_assign picky_env 0 1 ?st) = Some ElemThrow" by code_simp
  from copy_assign_insufficient_capacity[OF h1 h2 h3, of int_env] a e
  have 1: "thrown (Vector_copy_assign int_env 0 1 ?st) = None \<and>
     allocs (store_of (Vector_copy_assign int_env 0 1 ?st)) = [3] \<and>
     elems (objs (store_of (Vector_copy_assign int_env 0 1 ?st)) 0) = [5, 6, 7]"
    by simp
  from copy_assign_insufficient_capacity[OF h1 h2 h3, of picky_env] b e
  have 2: "objs (store_of (Vector_copy_assign picky_env 0 1 ?st)) 0 = vec [1] 1"
    by simp
  from 1 2 b show ?thesis by blast
qed

text \<open>
  Claim C5. Copy-assigning \<open>rhs\<close> to another vector \<open>this\<close> that is longer than \<open>rhs\<close>:
  when no copy of an element throws, the assignment returns; when it returns, the
  first \<open>rhs.size_\<close> slots of the destination hold the elements of the source, every
  slot after them is raw (the trailing elements are destroyed), the length is
  \<open>rhs.size_\<close>, the capacity is what it was, nothing was allocated and the source is
  unchanged.
\<close>

theorem copy_assign_shorter_source:
  assumes "this \<noteq> rhs" and "inv (objs st this)" and "inv (objs st rhs)"
      and "size_m (objs st rhs) < size_m (objs st this)"
  shows "((\<forall>x\<in>set (elems (objs st rhs)). \<not> copy_throws env x) \<longrightarrow>
            thrown (Vector_copy_assign env this rhs st) = None) \<and>
         (thrown (Vector_copy_assign env this rhs st) = None \<longrightarrow>
            elems (objs (store_of (Vector_copy_assign env this rhs st)) this) = elems (objs st rhs) \<and>
            buffer_m (data_m (objs (store_of (Vector_copy_assign env this rhs st)) this)) =
              map Some (elems (objs st rhs)) @
              replicate (Capacity (objs st this) - size_m (objs st rhs)) None \<and>
            size_m (objs (store_of (Vector_copy_assign env this rhs st)) this) = size_m (objs st rhs) \<and>
            Capacity (objs (store_of (Vector_copy_assign env this rhs st)) this) =
              Capacity (objs st this) \<and>
            allocs (store_of (Vector_copy_assign env this rhs st)) = allocs st \<and>
            objs (store_of (Vector_copy_assign env this rhs st)) rhs = objs st rhs)"
proof (intro conjI impI)
  assume "\<forall>x\<in>set (elems (objs st rhs)). \<not> copy_throws env x"
  then show "thrown (Vector_copy_assign env this rhs st) = None"
    using copy_assign_shrink_ok[OF assms] by blast
next
  assume d: "thrown (Vector_copy_assign env this rhs st) = None"
  note r = copy_assign_shrink_Done[OF assms d]
  show "elems (objs (store_of (Vector_copy_assign env this rhs st)) this) = elems (objs st rhs)"
    using r by (simp add: elems_vec)
  show "buffer_m (data_m (objs (store_of (Vector_copy_assign env this rhs st)) this)) =
          map Some (elems (objs st rhs)) @
          replicate (Capacity (objs st this) - size_m (objs st rhs)) None"
    using r assms(3) by (simp add: vec_def inv_length_elems)
  show "size_m (objs (store_of (Vector_copy_assign env this rhs st)) this) = size_m (objs st rhs)"
    using r assms(3) by (simp add: vec_def inv_length_elems)
  show "Capacity (objs (store_of (Vector_copy_assign env this rhs st)) this) = Capacity (objs st this)"
    using r by (simp add: vec_def Capacity_def)
  show "allocs (store_of (Vector_copy_assign env this rhs st)) = allocs st"
    using r by simp
  show "objs (store_of (Vector_copy_assign env this rhs st)) rhs = objs st rhs"
    using r assms(1) by simp
qed

theorem copy_assign_shorter_source_witness:
  "thrown (Vector_copy_assign int_env 0 1 (two (vec [9, 2, 3, 7] 4) (vec [5, 5] 2))) = None \<and>
   elems (objs (store_of (Vector_copy_assign int_env 0 1 (two (vec [9, 2, 3, 7] 4) (vec [5, 5] 2)))) 0) =
     [5, 5] \<and>
   size_m (objs (store_of (Vector_copy_assign int_env 0 1 (two (vec [9, 2, 3, 7] 4) (vec [5, 5] 2)))) 0) = 2 \<and>
   Capacity (objs (store_of (Vector_copy_assign int_env 0 1 (two (vec [9, 2, 3, 7] 4) (vec [5, 5] 2)))) 0) = 4"
proof -
  let ?st = "two (vec [9 :: int, 2, 3, 7] 4) (vec [5, 5] 2)"
  have h1: "(0::nat) \<noteq> 1" by simp
  have h2: "inv (objs ?st 0)" by (simp add: two_def inv_vec)
  have h3: "inv (objs ?st 1)" by (simp add: two_def inv_vec)
  have h4: "size_m (objs ?st 1) < size_m (objs ?st 0)" by code_simp
  have e: "size_m (objs ?st 1) = 2" "elems (objs ?st 1) = [5, 5]" "Capacity (objs ?st 0) = 4"
    by (simp_all add: two_def elems_vec) (simp_all add: vec_def Capacity_def)
  have a: "\<forall>x\<in>set (elems (objs ?st 1)). \<not> copy_throws int_env x"
    by (simp add: int_env_def)
  from copy_assign_shorter_source[OF h1 h2 h3 h4, of int_env] a e
  show ?thesis by simp
qed

section \<open>Growth\<close>

lemma EmplaceBack_growth:
  assumes "size_m (objs st this) = Capacity (objs st this)"
  shows "(thrown (EmplaceBack env this arg st) \<noteq> Some BadAlloc \<longrightarrow>
            allocs (store_of (EmplaceBack env this arg st)) =
              allocs st @ [max 1 (2 * Capacity (objs st this))]) \<and>
         (thrown (EmplaceBack env this arg st) = None \<longrightarrow>
            Capacity (objs (store_of (EmplaceBack env this arg st)) this) =
              max 1 (2 * Capacity (objs st this)))"
  using assms
  by (auto simp: EmplaceBack_def Let_def split: if_splits sum.splits prod.splits option.splits
        dest!: RawMemory_ctor_Inr RawMemory_ctor_Inl)

lemma Emplace_growth:
  assumes "size_m (objs st this) = Capacity (objs st this)"
  shows "(thrown (Emplace env this pos arg st) = None \<or>
          thrown (Emplace env this pos arg st) = Some ElemThrow \<longrightarrow>
            allocs (store_of (Emplace env this pos arg st)) =
              allocs st @ [max 1 (2 * Capacity (objs st this))]) \<and>
         (thrown (Emplace env this pos arg st) = None \<longrightarrow>
            Capacity (objs (store_of (Emplace env this pos arg st)) this) =
              max 1 (2 * Capacity (objs st this)))"
  using assms
  by (auto simp: Emplace_def Emplace_with_def Let_def
        split: if_splits sum.splits prod.splits option.splits
        dest!: RawMemory_ctor_Inr RawMemory_ctor_Inl)

text \<open>
  Claim C7. When the length of a vector has reached its capacity, every one of
  EmplaceBack, PushBack (both forms), Emplace and Insert (both forms) that returns, or
  that fails because an element operation throws, has made one allocation, of
  \<open>max(1, 2 * capacity)\<close> slots; when it returns, that is the new capacity. It is 1
  for capacity 0 and twice the capacity otherwise.
\<close>

theorem growth_doubles:
  assumes "size_m (objs st this) = Capacity (objs st this)"
      and "r \<in> {EmplaceBack env this arg st, PushBack env this x st, PushBack_move env this x st,
                 Emplace env this pos arg st, Insert env this pos x st,
                 Insert_move env this pos x st}"
  shows "(thrown r = None \<or> thrown r = Some ElemThrow \<longrightarrow>
            allocs (store_of r) = allocs st @ [max 1 (2 * Capacity (objs st this))]) \<and>
         (thrown r = None \<longrightarrow>
            Capacity (objs (store_of r) this) = max 1 (2 * Capacity (objs st this))) \<and>
         max 1 (2 * Capacity (objs st this)) =
           (if Capacity (objs st this) = 0 then 1 else 2 * Capacity (objs st this))"
proof -
  from assms(2) consider a where "r = EmplaceBack env this a st"
    | a where "r = Emplace env this pos a st"
    by (auto simp: PushBack_def PushBack_move_def Insert_def Insert_move_def)
  then show ?thesis
  proof cases
    case 1
    then show ?thesis using EmplaceBack_growth[OF assms(1), of env a] by auto
  next
    case 2
    then show ?thesis using Emplace_growth[OF assms(1), of env pos a] by auto
  qed
qed

theorem growth_doubles_witness:
  "size_m (objs (two (vec [1, 2 :: int] 2) (vec [] 0)) 0) =
     Capacity (objs (two (vec [1, 2 :: int] 2) (vec [] 0)) 0) \<and>
   thrown (PushBack int_env 0 5 (two (vec [1, 2] 2) (vec [] 0))) = None \<and>
   allocs (store_of (PushBack int_env 0 5 (two (vec [1, 2] 2) (vec [] 0)))) = [4] \<and>
   Capacity (objs (store_of (PushBack int_env 0 5 (two (vec [1, 2] 2) (vec [] 0)))) 0) = 4 \<and>
   size_m (objs (two (vec [1, 2 :: int] 2) (vec [] 0)) 1) =
     Capacity (objs (two (vec [1, 2 :: int] 2) (vec [] 0)) 1) \<and>
   thrown (Insert int_env 1 0 5 (two (vec [1, 2] 2) (vec [] 0))) = None \<and>
   allocs (store_of (Insert int_env 1 0 5 (two (vec [1, 2] 2) (vec [] 0)))) = [1] \<and>
   Capacity (objs (store_of (Insert int_env 1 0 5 (two (vec [1, 2] 2) (vec [] 0)))) 1) = 1"
proof -
  let ?st = "two (vec [1, 2 :: int] 2) (vec [] 0)"
  have a: "size_m (objs ?st 0) = Capacity (objs ?st 0)" by code_simp
  have b: "size_m (objs ?st 1) = Capacity (objs ?st 1)" by code_simp
  have c: "thrown (PushBack int_env 0 5 ?st) = None" by code_simp
  have d: "thrown (Insert int_env 1 0 5 ?st) = None" by code_simp
  have e: "Capacity (objs ?st 0) = 2" "Capacity (objs ?st 1) = 0" "allocs ?st = []" by code_simp+
  from growth_doubles [OF a, of "PushBack int_env 0 5 ?st" int_env None 5 0] c e
  have 1: "allocs (store_of (PushBack int_env 0 5 ?st)) = [4] \<and>
           Capacity (objs (store_of (PushBack int_env 0 5 ?st)) 0) = 4" by simp
  from growth_doubles [OF b, of "Insert int_env 1 0 5 ?st" int_env None 5 0] d e
  have 2: "allocs (store_of (Insert int_env 1 0 5 ?st)) = [1] \<and>
           Capacity (objs (store_of (Insert int_env 1 0 5 ?st)) 1) = 1" by simp
  from a b c d 1 2 show ?thesis by blast
qed

section \<open>PopBack\<close>

lemma butlast_elems:
  assumes "size_m v \<le> length (buffer_m (data_m v))" and "0 < size_m v"
  shows "elems ((set_buffer v (destroy_at (buffer_m (data_m v)) (size_m v - 1)))\<lparr>size_m := size_m v - 1\<rparr>) =
         butlast (elems v)"
  using assms by (simp add: elems_def destroy_at_def map_butlast[symmetric] butlast_take)

lemma inv_PopBack:
  assumes "inv v" and "0 < size_m v"
  shows "inv ((set_buffer v (destroy_at (buffer_m (data_m v)) (size_m v - 1)))\<lparr>size_m := size_m v - 1\<rparr>)"
proof -
  let ?b = "buffer_m (data_m v)"
  have len: "length ?b = capacity_m (data_m v)" and le: "size_m v \<le> capacity_m (data_m v)"
    and nn: "\<And>i. i < capacity_m (data_m v) \<Longrightarrow> (?b ! i = None) = (size_m v \<le> i)"
    using assms(1) by (auto simp: inv_nth)
  have "((?b[size_m v - 1 := None]) ! i = None) = (size_m v - 1 \<le> i)"
    if "i < capacity_m (data_m v)" for i
    using that nn[OF that] len assms(2) by (cases "i = size_m v - 1") (auto simp: nth_list_update)
  then show ?thesis using len le
    by (simp add: inv_nth set_buffer_def destroy_at_def)
qed

text \<open>
  Claim C9. PopBack on a vector of length 0 returns with the store as it was. On a
  vector of length at least 1 (that satisfies the invariant) it returns, the slot of
  the last element is raw, the length is one less, the elements are the former ones
  without the last, and capacity, allocations and the other vectors are unchanged.
\<close>

theorem PopBack_spec:
  "(size_m (objs st this) = 0 \<longrightarrow> PopBack this st = Done st) \<and>
   (inv (objs st this) \<and> size_m (objs st this) \<noteq> 0 \<longrightarrow>
      thrown (PopBack this st) = None \<and>
      size_m (objs (store_of (PopBack this st)) this) = size_m (objs st this) - 1 \<and>
      elems (objs (store_of (PopBack this st)) this) = butlast (elems (objs st this)) \<and>
      buffer_m (data_m (objs (store_of (PopBack this st)) this)) =
        (buffer_m (data_m (objs st this)))[size_m (objs st this) - 1 := None] \<and>
      Capacity (objs (store_of (PopBack this st)) this) = Capacity (objs st this) \<and>
      inv (objs (store_of (PopBack this st)) this) \<and>
      allocs (store_of (PopBack this st)) = allocs st \<and>
      (\<forall>other. other \<noteq> this \<longrightarrow> objs (store_of (PopBack this st)) other = objs st other))"
proof (intro conjI impI)
  assume "size_m (objs st this) = 0"
  then show "PopBack this st = Done st" by (simp add: PopBack_def)
next
  assume a: "inv (objs st this) \<and> size_m (objs st this) \<noteq> 0"
  let ?t = "objs st this"
  let ?v = "(set_buffer ?t (destroy_at (buffer_m (data_m ?t)) (size_m ?t - 1)))\<lparr>size_m := size_m ?t - 1\<rparr>"
  have r: "PopBack this st = Done (put st this ?v)"
    using a by (simp add: PopBack_def GetAddress_def Let_def)
  have le: "size_m ?t \<le> length (buffer_m (data_m ?t))"
    using a inv_length[of ?t] inv_size_le[of ?t] by simp
  show "thrown (PopBack this st) = None" using r by simp
  show "size_m (objs (store_of (PopBack this st)) this) = size_m ?t - 1" using r by simp
  show "elems (objs (store_of (PopBack this st)) this) = butlast (elems ?t)"
    using r butlast_elems[OF le] a by simp
  show "buffer_m (data_m (objs (store_of (PopBack this st)) this)) =
        (buffer_m (data_m ?t))[size_m ?t - 1 := None]"
    using r by (simp add: destroy_at_def)
  show "Capacity (objs (store_of (PopBack this st)) this) = Capacity ?t" using r by simp
  show "inv (objs (store_of (PopBack this st)) this)" using r inv_PopBack[of ?t] a by simp
  show "allocs (store_of (PopBack this st)) = allocs st" using r by simp
  show "\<forall>other. other \<noteq> this \<longrightarrow> objs (store_of (PopBack this st)) other = objs st other"
    using r by simp
qed

theorem PopBack_spec_witness:
  "PopBack 1 (two (vec [1, 2, 3 :: int] 4) (vec [] 0)) = Done (two (vec [1, 2, 3] 4) (vec [] 0)) \<and>
   thrown (PopBack 0 (two (vec [1, 2, 3 :: int] 4) (vec [] 0))) = None \<and>
   size_m (objs (store_of (PopBack 0 (two (vec [1, 2, 3 :: int] 4) (vec [] 0)))) 0) = 2 \<and>
   elems (objs (store_of (PopBack 0 (two (vec [1, 2, 3 :: int] 4) (vec [] 0)))) 0) = [1, 2]"
proof -
  let ?st = "two (vec [1, 2, 3 :: int] 4) (vec [] 0)"
  have h1: "size_m (objs ?st 1) = 0" by code_simp
  have h2: "inv (objs ?st 0) \<and> size_m (objs ?st 0) \<noteq> 0" by (simp add: two_def inv_vec) (simp add: vec_def)
  have e: "size_m (objs ?st 0) = 3" "elems (objs ?st 0) = [1, 2, 3]"
    by (simp_all add: two_def elems_vec) (simp add: vec_def)
  from PopBack_spec[of ?st 1] PopBack_spec[of ?st 0] h1 h2 e show ?thesis by simp
qed

section \<open>Moving and value-constructing elements\<close>

lemma rd_update_live: "rd b i \<noteq> None \<Longrightarrow> rd (b[j := Some v]) i \<noteq> None"
  by (cases "i = j") (auto simp: rd_def split: if_splits)

text \<open>\<open>uninitialized_move_n\<close>: the sources stay live, those outside the range keep their
  value; a run that ends normally has filled the destination, and one that throws has
  left the destination as it was.\<close>

lemma umove_cases:
  assumes "\<forall>i<n. rd src (s + i) \<noteq> None" and "d + n \<le> length dst"
      and "uninitialized_move_n env src s n dst d = (e, old, r)"
  shows "length old = length src \<and>
         (\<forall>i<length src. (old ! i = None) = (src ! i = None)) \<and>
         (\<forall>i<length src. \<not> (s \<le> i \<and> i < s + n) \<longrightarrow> old ! i = src ! i) \<and>
         length r = length dst \<and>
         (e = None \<longrightarrow>
            (\<forall>i<length dst. r ! i = (if d \<le> i \<and> i < d + n then src ! (s + (i - d)) else dst ! i))) \<and>
         (e \<noteq> None \<longrightarrow>
            e = Some ElemThrow \<and> (\<exists>i<n. move_throws env (the (rd src (s + i)))) \<and>
            ((\<forall>i<length dst. d \<le> i \<and> i < d + n \<longrightarrow> dst ! i = None) \<longrightarrow> r = dst))"
  using assms
proof (induction n arbitrary: s src dst d e old r)
  case 0
  then show ?case by auto
next
  case (Suc n)
  from Suc.prems(1) obtain x where x: "rd src s = Some x"
    by (metis add.right_neutral not_None_eq zero_less_Suc)
  have dl: "d < length dst" using Suc.prems(2) by simp
  show ?case
  proof (cases "move_throws env x")
    case True
    then have "e = Some ElemThrow" "old = src" "r = dst" using Suc.prems(3) x dl by simp_all
    moreover have "\<exists>i<Suc n. move_throws env (the (rd src (s + i)))"
      using True x by (intro exI[of _ 0]) simp
    ultimately show ?thesis by simp
  next
    case False
    let ?src = "src[s := Some (moved_from env x)]" and ?dst = "dst[d := Some x]"
    obtain e' old' r' where rec:
      "uninitialized_move_n env ?src (Suc s) n ?dst (Suc d) = (e', old', r')"
      by (cases "uninitialized_move_n env ?src (Suc s) n ?dst (Suc d)") auto
    have res: "e = e'" "old = old'" "r = (if e' = None then r' else r'[d := None])"
      using Suc.prems(3) x dl False rec by (auto split: option.splits)
    have p1: "\<forall>i<n. rd ?src (Suc s + i) \<noteq> None"
    proof (intro allI impI)
      fix i assume "i < n"
      then have "rd src (s + Suc i) \<noteq> None" using Suc.prems(1) by (metis Suc_less_eq)
      then show "rd ?src (Suc s + i) \<noteq> None" by (simp add: rd_update_other)
    qed
    have p2: "Suc d + n \<le> length ?dst" using Suc.prems(2) by simp
    from Suc.IH[OF p1 p2 rec] have ih:
      "length old' = length src"
      "\<forall>i<length src. (old' ! i = None) = (?src ! i = None)"
      "\<forall>i<length src. \<not> (Suc s \<le> i \<and> i < Suc s + n) \<longrightarrow> old' ! i = ?src ! i"
      "length r' = length dst"
      "e' = None \<longrightarrow> (\<forall>i<length dst. r' ! i =
          (if Suc d \<le> i \<and> i < Suc d + n then ?src ! (Suc s + (i - Suc d)) else ?dst ! i))"
      "e' \<noteq> None \<longrightarrow> e' = Some ElemThrow \<and> (\<exists>i<n. move_throws env (the (rd ?src (Suc s + i)))) \<and>
          ((\<forall>i<length dst. Suc d \<le> i \<and> i < Suc d + n \<longrightarrow> ?dst ! i = None) \<longrightarrow> r' = ?dst)"
      by simp_all
    have sl: "s < length src" "src ! s = Some x" using x by (simp_all add: rd_Some)
    have a: "\<forall>i<length src. (old ! i = None) = (src ! i = None)"
      using ih(2) res(2) sl by (auto simp: nth_list_update)
    have b: "\<forall>i<length src. \<not> (s \<le> i \<and> i < s + Suc n) \<longrightarrow> old ! i = src ! i"
      using ih(3) res(2) by (auto simp: nth_list_update)
    have c: "length r = length dst" using ih(4) res(3) by simp
    have dd: "e = None \<longrightarrow>
        (\<forall>i<length dst. r ! i = (if d \<le> i \<and> i < d + Suc n then src ! (s + (i - d)) else dst ! i))"
    proof (intro impI allI)
      fix i assume en: "e = None" and i: "i < length dst"
      then have r: "r = r'" and e': "e' = None" using res by simp_all
      show "r ! i = (if d \<le> i \<and> i < d + Suc n then src ! (s + (i - d)) else dst ! i)"
      proof (cases "i = d")
        case True
        then show ?thesis using ih(5) e' r i sl by simp
      next
        case ne: False
        then have "Suc s + (i - Suc d) = s + (i - d)" if "d \<le> i" using that by arith
        then show ?thesis using ih(5) e' r i ne by (auto simp: nth_list_update)
      qed
    qed
    have ee: "e \<noteq> None \<longrightarrow>
        e = Some ElemThrow \<and> (\<exists>i<Suc n. move_throws env (the (rd src (s + i)))) \<and>
        ((\<forall>i<length dst. d \<le> i \<and> i < d + Suc n \<longrightarrow> dst ! i = None) \<longrightarrow> r = dst)"
    proof (intro impI)
      assume en: "e \<noteq> None"
      then have e': "e' \<noteq> None" and r: "r = r'[d := None]" using res by auto
      from ih(6) e' obtain i where i: "i < n" "move_throws env (the (rd ?src (Suc s + i)))"
        and et: "e' = Some ElemThrow" by auto
      have "rd ?src (Suc s + i) = rd src (s + Suc i)" by (simp add: rd_update_other)
      then have t: "\<exists>i<Suc n. move_throws env (the (rd src (s + i)))"
        using i by (intro exI[of _ "Suc i"]) simp
      have "r = dst" if z: "\<forall>i<length dst. d \<le> i \<and> i < d + Suc n \<longrightarrow> dst ! i = None"
      proof -
        have "\<forall>i<length dst. Suc d \<le> i \<and> i < Suc d + n \<longrightarrow> ?dst ! i = None"
          using z by (auto simp: nth_list_update)
        with ih(6) e' have "r' = ?dst" by simp
        moreover have "dst ! d = None" using z dl by simp
        ultimately show ?thesis using r by (metis list_update_id list_update_overwrite)
      qed
      with t et res(1) show "e = Some ElemThrow \<and> (\<exists>i<Suc n. move_throws env (the (rd src (s + i)))) \<and>
        ((\<forall>i<length dst. d \<le> i \<and> i < d + Suc n \<longrightarrow> dst ! i = None) \<longrightarrow> r = dst)" by simp
    qed
    from ih(1) res(2) a b c dd ee show ?thesis by simp
  qed
qed

lemma transfer_n_cases:
  assumes "\<forall>i<n. rd src (s + i) \<noteq> None" and "d + n \<le> length dst"
      and "\<forall>i<length dst. d \<le> i \<and> i < d + n \<longrightarrow> dst ! i = None"
      and "transfer_n env src s n dst d = (e, old, r)"
  shows "length old = length src \<and>
         (\<forall>i<length src. (old ! i = None) = (src ! i = None)) \<and>
         (\<forall>i<length src. \<not> (s \<le> i \<and> i < s + n) \<longrightarrow> old ! i = src ! i) \<and>
         (e = None \<longrightarrow>
            length r = length dst \<and>
            (\<forall>i<length dst. r ! i = (if d \<le> i \<and> i < d + n then src ! (s + (i - d)) else dst ! i))) \<and>
         (e \<noteq> None \<longrightarrow>
            r = dst \<and> e = Some ElemThrow \<and>
            (\<not> nothrow_move env \<longrightarrow> old = src) \<and>
            (nothrow_move env \<longrightarrow> (\<exists>i<n. move_throws env (the (rd src (s + i))))))"
proof (cases "nothrow_move env")
  case True
  with assms(4) have "uninitialized_move_n env src s n dst d = (e, old, r)"
    by (simp add: transfer_n_def)
  from umove_cases[OF assms(1,2) this] assms(3) True show ?thesis by simp
next
  case False
  with assms(4) have c: "uninitialized_copy_n env src s n dst d = (e, r)" and o: "old = src"
    by (auto simp: transfer_n_def split: prod.splits)
  show ?thesis
  proof (cases e)
    case None
    with ucopy_None[OF c[unfolded None]] o show ?thesis by simp
  next
    case (Some e')
    from ucopy_fail[OF c[unfolded Some] assms(3)] ucopy_error[OF c[unfolded Some] assms(1,2)] o Some False
    show ?thesis by simp
  qed
qed

lemma transfer_n_copy_old:
  "\<not> nothrow_move env \<Longrightarrow> transfer_n env src s n dst d = (e, old, r) \<Longrightarrow> old = src"
  by (auto simp: transfer_n_def split: prod.splits)

lemma replace_data_eq: "replace_data t old nd = t\<lparr>data_m := nd\<rparr>"
  by (simp add: replace_data_def RawMemory_Swap_def)





lemma move_n_error:
  assumes "move_n env blk first n d = (Some e, r)"
      and "\<forall>i. d \<le> i \<and> i < first + n \<longrightarrow> rd blk i \<noteq> None" and "d \<le> first"
  shows "e = ElemThrow"
  using assms
proof (induction n arbitrary: blk first d)
  case 0
  then show ?case by simp
next
  case (Suc n)
  from Suc.prems(2,3) obtain x y where x: "rd blk first = Some x" "rd blk d = Some y"
    by (metis add_Suc_right le_refl less_add_Suc1 not_None_eq order_le_less_trans)
  show ?case
  proof (cases "move_assign_throws env x")
    case True
    then show ?thesis using Suc.prems(1) x by simp
  next
    case False
    let ?b = "(blk[first := Some (moved_from env x)])[d := Some x]"
    have rec: "move_n env ?b (Suc first) n (Suc d) = (Some e, r)"
      using Suc.prems(1) x False by simp
    have l: "\<forall>i. Suc d \<le> i \<and> i < Suc first + n \<longrightarrow> rd ?b i \<noteq> None"
    proof (intro allI impI)
      fix i assume i: "Suc d \<le> i \<and> i < Suc first + n"
      then have "rd blk i \<noteq> None" using Suc.prems(2) by simp
      then show "rd ?b i \<noteq> None" by (intro rd_update_live)
    qed
    from Suc.IH[OF rec l] Suc.prems(3) show ?thesis by simp
  qed
qed


section \<open>Reserve and EmplaceBack\<close>



lemma inv_set_buffer_live:
  assumes "inv t" and "length b = length (buffer_m (data_m t))"
      and "\<And>i. i < length (buffer_m (data_m t)) \<Longrightarrow> (b ! i = None) = (buffer_m (data_m t) ! i = None)"
  shows "inv (set_buffer t b)"
  using assms by (simp add: inv_nth set_buffer_def)

text \<open>A transfer of the elements of a vector that throws while moving has met an
  element whose move throws.\<close>

lemma transfer_throw_elem:
  assumes "inv t" and "n \<le> size_m t" and "s + n \<le> size_m t"
      and "\<exists>i<n. move_throws env (the (rd (buffer_m (data_m t)) (s + i)))"
  shows "\<exists>x\<in>set (elems t). move_throws env x"
proof -
  from assms(4) obtain i where i: "i < n" "move_throws env (the (rd (buffer_m (data_m t)) (s + i)))"
    by blast
  then have l: "s + i < size_m t" using assms(3) by simp
  from inv_live[OF assms(1) l] i(2) have "move_throws env (elems t ! (s + i))" by simp
  moreover have "elems t ! (s + i) \<in> set (elems t)" using l assms(1) by (simp add: inv_length_elems)
  ultimately show ?thesis by blast
qed



section \<open>Emplace, Erase, Resize and the sized constructor\<close>

lemma insert_nth:
  assumes "shift \<le> length xs" and "i \<le> length xs"
  shows "(take shift xs @ x # drop shift xs) ! i =
           (if i < shift then xs ! i else if i = shift then x else xs ! (i - 1))"
proof -
  have l: "length (take shift xs) = shift" using assms(1) by simp
  show ?thesis
  proof (cases "i < shift")
    case True
    then show ?thesis using l by (simp add: nth_append)
  next
    case False
    show ?thesis
    proof (cases "i = shift")
      case True
      then show ?thesis using l by (simp add: nth_append)
    next
      case ne: False
      then obtain k where k: "i = shift + Suc k" using False
        by (metis add_Suc_right less_imp_Suc_add linorder_neqE_nat)
      then have "(take shift xs @ x # drop shift xs) ! i = xs ! (shift + k)"
        using l assms by (simp add: nth_append)
      then show ?thesis using k by simp
    qed
  qed
qed

lemma Emplace_realloc_cases:
  assumes "inv (objs st this)" and "shift \<le> size_m (objs st this)"
      and "size_m (objs st this) = Capacity (objs st this)"
      and "fits env (max 1 (2 * Capacity (objs st this)))"
  shows "(thrown (Emplace env this shift arg st) = None \<longrightarrow>
            (\<exists>x. arg = Some x \<and>
              objs (store_of (Emplace env this shift arg st)) =
                (objs st)(this := vec (take shift (elems (objs st this)) @ x # drop shift (elems (objs st this)))
                   (max 1 (2 * Capacity (objs st this)))))) \<and>
         (thrown (Emplace env this shift arg st) \<noteq> None \<longrightarrow>
            inv (objs (store_of (Emplace env this shift arg st)) this) \<and>
            size_m (objs (store_of (Emplace env this shift arg st)) this) = size_m (objs st this) \<and>
            (\<forall>other. other \<noteq> this \<longrightarrow>
               objs (store_of (Emplace env this shift arg st)) other = objs st other) \<and>
            ((nothrow_move env \<longrightarrow> (\<forall>x\<in>set (elems (objs st this)). \<not> move_throws env x)) \<longrightarrow>
               objs (store_of (Emplace env this shift arg st)) = objs st))"
proof -
  let ?t = "objs st this"
  let ?m = "if size_m ?t = 0 then 1 else size_m ?t * 2"
  let ?xs = "elems ?t"
  have m: "?m = max 1 (2 * Capacity ?t)" using assms(3) by auto
  have fit: "fits env ?m" using assms(4) m by simp
  have lt: "size_m ?t < ?m" by auto
  have lxs: "length ?xs = size_m ?t" using assms(1) by (simp add: inv_length_elems)
  have lb: "length (buffer_m (data_m ?t)) = size_m ?t"
    using inv_length[OF assms(1)] assms(3) by (simp add: Capacity_def)
  show ?thesis
  proof (cases "RawMemory_ctor env ?m st")
    case (Inl e)
    then show ?thesis using assms(1,2,3) by (simp add: Emplace_def Emplace_with_def Let_def)
  next
    case (Inr p)
    then obtain nd st' where p: "RawMemory_ctor env ?m st = Inr (nd, st')" by (cases p) auto
    from RawMemory_ctor_fits[OF p fit] have nd: "nd = \<lparr>buffer_m = replicate ?m None, capacity_m = ?m\<rparr>"
      and st': "objs st' = objs st" by auto
    show ?thesis
    proof (cases arg)
      case None
      then show ?thesis using assms(1,2,3) p st' by (simp add: Emplace_def Emplace_with_def Let_def construct_at_def)
    next
      case (Some x)
      let ?nb0 = "(replicate ?m (None :: 'a option))[shift := Some x]"
      have ca: "construct_at (GetAddress nd) shift arg = Inr ?nb0"
        using Some lt assms(2) by (simp add: construct_at_def GetAddress_def nd)
      obtain e1 old1 nb1 where tr1:
        "transfer_n env (buffer_m (data_m ?t)) 0 shift ?nb0 0 = (e1, old1, nb1)"
        by (cases "transfer_n env (buffer_m (data_m ?t)) 0 shift ?nb0 0") auto
      have s1: "\<forall>i<shift. rd (buffer_m (data_m ?t)) (0 + i) \<noteq> None"
        using inv_src_live[OF assms(1)] assms(2) by simp
      have q1: "0 + shift \<le> length ?nb0" using lt assms(2) by simp
      have z1: "\<forall>i<length ?nb0. 0 \<le> i \<and> i < 0 + shift \<longrightarrow> ?nb0 ! i = None" by simp
      note tc1 = transfer_n_cases[OF s1 q1 z1 tr1]
      show ?thesis
      proof (cases e1)
        case (Some e')
        have r: "Emplace env this shift arg st = Threw e' (put st' this (set_buffer ?t old1))"
          using assms(2,3) p ca tr1 Some by (simp add: Emplace_def Emplace_with_def Let_def GetAddress_def)
        from tc1 Some have lo: "length old1 = length (buffer_m (data_m ?t))"
          and live: "\<And>i. i < length (buffer_m (data_m ?t)) \<Longrightarrow>
                       (old1 ! i = None) = (buffer_m (data_m ?t) ! i = None)"
          and cp: "\<not> nothrow_move env \<Longrightarrow> old1 = buffer_m (data_m ?t)"
          and mv: "nothrow_move env \<Longrightarrow> \<exists>i<shift. move_throws env (the (rd (buffer_m (data_m ?t)) (0 + i)))"
          by auto
        have i: "inv (set_buffer ?t old1)" using inv_set_buffer_live[OF assms(1) lo live] .
        have "set_buffer ?t old1 = ?t"
          if c: "nothrow_move env \<longrightarrow> (\<forall>x\<in>set (elems ?t). \<not> move_throws env x)"
        proof -
          have "\<not> nothrow_move env"
            using c mv transfer_throw_elem[OF assms(1,2), of 0 env] assms(2) by auto
          then show ?thesis using cp by simp
        qed
        then show ?thesis using r st' i by auto
      next
        case None
        with tc1 have len1: "length nb1 = ?m"
          and nth1: "\<And>i. i < ?m \<Longrightarrow> nb1 ! i = (if i < shift then buffer_m (data_m ?t) ! i else ?nb0 ! i)"
          and lo1: "length old1 = size_m ?t"
          and o1: "\<And>i. i < size_m ?t \<Longrightarrow> shift \<le> i \<Longrightarrow> old1 ! i = buffer_m (data_m ?t) ! i"
          and live1: "\<And>i. i < size_m ?t \<Longrightarrow> (old1 ! i = None) = (buffer_m (data_m ?t) ! i = None)"
          using lb by auto
        obtain e2 old2 nb2 where tr2:
          "transfer_n env old1 shift (size_m ?t - shift) nb1 (shift + 1) = (e2, old2, nb2)"
          by (cases "transfer_n env old1 shift (size_m ?t - shift) nb1 (shift + 1)") auto
        have s2: "\<forall>i<size_m ?t - shift. rd old1 (shift + i) \<noteq> None"
        proof (intro allI impI)
          fix i assume i: "i < size_m ?t - shift"
          then have a: "shift + i < size_m ?t" by simp
          then have "old1 ! (shift + i) = buffer_m (data_m ?t) ! (shift + i)" using o1 by simp
          moreover have "buffer_m (data_m ?t) ! (shift + i) \<noteq> None"
            using elems_nth[OF assms(1) a] by simp
          ultimately show "rd old1 (shift + i) \<noteq> None" using lo1 a by (simp add: rd_def)
        qed
        have q2: "shift + 1 + (size_m ?t - shift) \<le> length nb1" using len1 lt assms(2) by simp
        have z2: "\<forall>i<length nb1. shift + 1 \<le> i \<and> i < shift + 1 + (size_m ?t - shift) \<longrightarrow> nb1 ! i = None"
          using len1 nth1 by simp
        note tc2 = transfer_n_cases[OF s2 q2 z2 tr2]
        show ?thesis
        proof (cases e2)
          case (Some e')
          have r: "Emplace env this shift arg st = Threw e' (put st' this (set_buffer ?t old2))"
            using assms(2,3) p ca tr1 tr2 None Some by (simp add: Emplace_def Emplace_with_def Let_def GetAddress_def)
          from tc2 Some lo1 have lo: "length old2 = size_m ?t"
            and live2: "\<And>i. i < size_m ?t \<Longrightarrow> (old2 ! i = None) = (old1 ! i = None)"
            and cp: "\<not> nothrow_move env \<Longrightarrow> old2 = old1"
            and mv: "nothrow_move env \<Longrightarrow>
                       \<exists>i<size_m ?t - shift. move_throws env (the (rd old1 (shift + i)))"
            by auto
          have i: "inv (set_buffer ?t old2)"
            using inv_set_buffer_live[OF assms(1), of old2] lo lb live1 live2 by simp
          have "set_buffer ?t old2 = ?t"
            if c: "nothrow_move env \<longrightarrow> (\<forall>x\<in>set (elems ?t). \<not> move_throws env x)"
          proof -
            have "\<not> nothrow_move env"
            proof
              assume nm: "nothrow_move env"
              from mv[OF nm] obtain i where i: "i < size_m ?t - shift"
                "move_throws env (the (rd old1 (shift + i)))" by blast
              then have a: "shift + i < size_m ?t" by simp
              have "rd old1 (shift + i) = rd (buffer_m (data_m ?t)) (shift + i)"
                using o1[of "shift + i"] a lo1 lb by (simp add: rd_def)
              with i have "\<exists>i<size_m ?t - shift.
                  move_throws env (the (rd (buffer_m (data_m ?t)) (shift + i)))" by auto
              from transfer_throw_elem[OF assms(1) _ _ this] assms(2) c nm show False by auto
            qed
            with cp transfer_n_copy_old[OF _ tr1] show ?thesis by simp
          qed
          then show ?thesis using r st' i by auto
        next
          case None2: None
          with tc2 len1 have len2: "length nb2 = ?m"
            and nth2: "\<And>i. i < ?m \<Longrightarrow> nb2 ! i =
               (if shift + 1 \<le> i \<and> i < shift + 1 + (size_m ?t - shift)
                then old1 ! (shift + (i - (shift + 1))) else nb1 ! i)"
            by auto
          let ?v = "(?t\<lparr>data_m := nd\<lparr>buffer_m := nb2\<rparr>\<rparr>)\<lparr>size_m := size_m ?t + 1\<rparr>"
          let ?ys = "take shift ?xs @ x # drop shift ?xs"
          have r: "Emplace env this shift arg st = Done (put st' this ?v)"
            using assms(2,3) p ca tr1 tr2 None None2
            by (simp add: Emplace_def Emplace_with_def Let_def GetAddress_def replace_data_eq)
          have "?v = vec ?ys ?m"
          proof (rule vec_eqI)
            show "size_m ?v = length ?ys" using lxs assms(2) by simp
            show "capacity_m (data_m ?v) = ?m" by (simp add: nd)
            show "length (buffer_m (data_m ?v)) = ?m" using len2 by simp
            show "length ?ys \<le> ?m" using lt lxs assms(2) by simp
            show "buffer_m (data_m ?v) ! i = (if i < length ?ys then Some (?ys ! i) else None)"
              if i: "i < ?m" for i
            proof -
              have ly: "length ?ys = size_m ?t + 1" using lxs assms(2) by simp
              consider "i < shift" | "i = shift" | "shift < i" "i \<le> size_m ?t" | "size_m ?t < i"
                by linarith
              then show ?thesis
              proof cases
                case 1
                then have "nb2 ! i = buffer_m (data_m ?t) ! i" using nth2[OF i] nth1[OF i] by simp
                moreover have "?ys ! i = ?xs ! i" using 1 assms(2) lxs by (simp add: insert_nth)
                ultimately show ?thesis using 1 assms(2) ly elems_nth[OF assms(1), of i] by simp
              next
                case 2
                then have "nb2 ! i = Some x" using nth2[OF i] nth1[OF i] i by simp
                moreover have "?ys ! i = x" using 2 assms(2) lxs by (simp add: insert_nth)
                ultimately show ?thesis using 2 assms(2) ly by simp
              next
                case 3
                then have "nb2 ! i = old1 ! (i - 1)" using nth2[OF i]
                  by (auto simp: Suc_diff_Suc intro!: arg_cong[where f="\<lambda>k. old1 ! k"])
                also have "\<dots> = buffer_m (data_m ?t) ! (i - 1)" using 3 o1[of "i - 1"] by simp
                also have "\<dots> = Some (?xs ! (i - 1))" using 3 elems_nth[OF assms(1), of "i - 1"] by simp
                finally have "nb2 ! i = Some (?xs ! (i - 1))" .
                moreover have "?ys ! i = ?xs ! (i - 1)" using 3 assms(2) lxs by (simp add: insert_nth)
                ultimately show ?thesis using 3 ly by simp
              next
                case 4
                then have "nb2 ! i = None" using nth2[OF i] nth1[OF i] assms(2) i by simp
                then show ?thesis using 4 ly by simp
              qed
            qed
          qed
          then show ?thesis using r st' Some m by simp
        qed
      qed
    qed
  qed
qed







section \<open>Copy assignment into sufficient capacity\<close>




section \<open>The invariant\<close>




















text \<open>
  The provisos on the moves are needed. With an element type that cannot be copied and
  whose moves throw on 6, Erase of the first element of [1, 2, 6, 4] throws after the
  first element was overwritten, and Reserve throws after two elements were moved out;
  the invariant holds, the elements are not the old ones.
\<close>

lemma Erase_move_throws:
  "thrown (Erase moveonly_env 0 0 (two (vec [1, 2, 6, 4] 4) (vec [] 0))) = Some ElemThrow \<and>
   objs (store_of (Erase moveonly_env 0 0 (two (vec [1, 2, 6, 4] 4) (vec [] 0)))) 0 =
     vec [2, 0, 6, 4] 4"
  by code_simp

lemma Reserve_move_throws:
  "thrown (Reserve moveonly_env 0 8 (two (vec [1, 2, 6, 4] 4) (vec [] 0))) = Some ElemThrow \<and>
   objs (store_of (Reserve moveonly_env 0 8 (two (vec [1, 2, 6, 4] 4) (vec [] 0)))) 0 =
     vec [0, 0, 6, 4] 4"
  by code_simp

text \<open>
  The proviso on the byte size is needed. For \<open>T = int\<close> of four bytes,
  \<open>Reserve(2^62 + 1)\<close> on an empty vector asks \<open>operator new\<close> for four bytes and
  returns with the capacity \<open>2^62 + 1\<close> over a block of one slot.
\<close>

lemma Reserve_wraps:
  "thrown (Reserve int_env 0 4611686018427387905 (two (vec [] 0) (vec [] 0))) = None \<and>
   objs (store_of (Reserve int_env 0 4611686018427387905 (two (vec [] 0) (vec [] 0)))) 0 =
     \<lparr>data_m = \<lparr>buffer_m = [None], capacity_m = 4611686018427387905\<rparr>, size_m = 0\<rparr> \<and>
   \<not> inv (objs (store_of (Reserve int_env 0 4611686018427387905 (two (vec [] 0) (vec [] 0)))) 0)"
proof -
  have r: "Reserve int_env 0 4611686018427387905 (two (vec [] 0) (vec [] 0)) =
        Done (put ((two (vec [] 0) (vec [] 0))\<lparr>allocs := [4611686018427387905]\<rparr>) 0
          \<lparr>data_m = \<lparr>buffer_m = [None], capacity_m = 4611686018427387905\<rparr>, size_m = 0\<rparr>)"
    by (simp add: Reserve_def Let_def two_def vec_def Capacity_def RawMemory_ctor_def Allocate_def
        size_t_mul_def int_env_def transfer_n_def GetAddress_def replace_data_def
        RawMemory_Swap_def put_def)
  have "\<not> inv \<lparr>data_m = \<lparr>buffer_m = [None :: int option], capacity_m = 4611686018427387905\<rparr>,
                 size_m = 0\<rparr>"
    by (simp add: inv_def)
  with r show ?thesis by (simp add: put_def)
qed

text \<open>
  Where Emplace inserts in place, a construction of the new element that throws comes
  after the slot at \<open>shift\<close> was destroyed and before \<open>size_\<close> is incremented: the
  vector is left with a raw slot among its first \<open>size_\<close> slots.
\<close>

lemma Insert_in_place_failure:
  "thrown (Insert picky_env 0 1 6 (two (vec [1, 2, 3] 4) (vec [] 0))) = Some ElemThrow \<and>
   objs (store_of (Insert picky_env 0 1 6 (two (vec [1, 2, 3] 4) (vec [] 0)))) 0 =
     \<lparr>data_m = \<lparr>buffer_m = [Some 1, None, Some 2, Some 3], capacity_m = 4\<rparr>, size_m = 3\<rparr> \<and>
   \<not> inv (objs (store_of (Insert picky_env 0 1 6 (two (vec [1, 2, 3] 4) (vec [] 0)))) 0)"
  by code_simp

section \<open>Insertion\<close>

lemma move_backward_id:
  assumes "\<forall>x. moved_from env x = x"
      and "move_backward env blk first n (first + n + 1) = (None, r)"
  shows "length r = length blk \<and>
         (\<forall>i<length blk. r ! i = (if first < i \<and> i \<le> first + n then blk ! (i - 1) else blk ! i))"
  using assms(2)
proof (induction n arbitrary: blk r)
  case 0
  then show ?case by auto
next
  case (Suc n)
  from Suc.prems obtain x y where x: "rd blk (first + n) = Some x" "rd blk (first + n + 1) = Some y"
    and nt: "\<not> move_assign_throws env x"
    by (auto split: option.splits if_splits)
  let ?b = "(blk[first + n := Some (moved_from env x)])[first + n + 1 := Some x]"
  have b: "?b = blk[first + n + 1 := Some x]"
    using x(1) assms(1) by (metis list_update_id rd_Some)
  have rec: "move_backward env ?b first n (first + n + 1) = (None, r)"
    using Suc.prems x nt by simp
  from Suc.IH[OF rec] have
    r: "length r = length blk"
       "\<forall>i<length blk. r ! i = (if first < i \<and> i \<le> first + n then ?b ! (i - 1) else ?b ! i)"
    by auto
  have "r ! i = (if first < i \<and> i \<le> first + Suc n then blk ! (i - 1) else blk ! i)"
    if i: "i < length blk" for i
  proof -
    consider "i = first + n + 1" | "first < i" "i \<le> first + n" | "i \<le> first" | "first + n + 1 < i"
      by linarith
    then show ?thesis
    proof cases
      case 1
      then show ?thesis using r(2) i b x(1) by (simp add: rd_Some)
    next
      case 2
      then show ?thesis using r(2) i b by simp
    next
      case 3
      then show ?thesis using r(2) i b by simp
    next
      case 4
      then show ?thesis using r(2) i b by simp
    qed
  qed
  with r(1) show ?case by blast
qed

lemma Emplace_in_place_id:
  assumes "inv (objs st this)" and "shift \<le> size_m (objs st this)"
      and "size_m (objs st this) \<noteq> Capacity (objs st this)"
      and "\<forall>x. moved_from env x = x"
      and "thrown (Emplace env this shift (Some x) st) = None"
  shows "Emplace env this shift (Some x) st =
           Done (put st this (vec (take shift (elems (objs st this)) @ x # drop shift (elems (objs st this)))
                   (Capacity (objs st this))))"
proof -
  let ?t = "objs st this"
  let ?buf = "buffer_m (data_m ?t)"
  let ?xs = "elems ?t"
  let ?ys = "take shift ?xs @ x # drop shift ?xs"
  have lb: "length ?buf = Capacity ?t" using inv_length[OF assms(1)] by (simp add: Capacity_def)
  have lt: "size_m ?t < length ?buf"
    using assms(3) inv_size_le[OF assms(1)] lb by (simp add: Capacity_def)
  have lxs: "length ?xs = size_m ?t" using assms(1) by (simp add: inv_length_elems)
  have some: "\<And>i. i < size_m ?t \<Longrightarrow> ?buf ! i = Some (?xs ! i)" using elems_nth[OF assms(1)] .
  have none: "\<And>i. i < length ?buf \<Longrightarrow> size_m ?t \<le> i \<Longrightarrow> ?buf ! i = None"
    using inv_raw[OF assms(1)] lb by (simp add: Capacity_def)
  obtain e0 b0 where sr0:
    "(if size_m ?t \<noteq> 0 then shift_right env ?buf (size_m ?t) shift else (None, ?buf)) = (e0, b0)"
    by (cases "if size_m ?t \<noteq> 0 then shift_right env ?buf (size_m ?t) shift else (None, ?buf)") auto
  have e0: "e0 = None" using assms(2,3,5) sr0
    unfolding Emplace_def Emplace_with_def Let_def GetAddress_def by (cases e0) auto
  have "\<exists>b. (if size_m ?t \<noteq> 0 then shift_right env ?buf (size_m ?t) shift else (None, ?buf)) = (None, b) \<and>
          length b = length ?buf \<and>
          (\<forall>i<length ?buf. i \<noteq> shift \<longrightarrow>
             b ! i = (if shift < i \<and> i \<le> size_m ?t then ?buf ! (i - 1) else ?buf ! i))"
  proof (cases "size_m ?t = 0")
    case True
    then show ?thesis by simp
  next
    case False
    let ?n = "size_m ?t"
    have srn: "shift_right env ?buf ?n shift = (None, b0)" using sr0 e0 False by simp
    have x0: "rd ?buf (?n - 1) = Some (?xs ! (?n - 1))"
      using inv_live[OF assms(1), of "?n - 1"] False by simp
    let ?b1 = "(?buf[?n - 1 := Some (moved_from env (?xs ! (?n - 1)))])[?n := Some (?xs ! (?n - 1))]"
    have b1: "?b1 = ?buf[?n := Some (?xs ! (?n - 1))]"
      using x0 assms(4) by (metis list_update_id rd_Some)
    have nt: "\<not> move_throws env (?xs ! (?n - 1))"
      using srn x0 by (auto simp: shift_right_def construct_at_def move_of_def split: if_splits)
    have ca: "construct_at (?buf[?n - 1 := Some (moved_from env (?xs ! (?n - 1)))]) ?n
                (move_of env (?xs ! (?n - 1))) = Inr ?b1"
      using lt nt by (simp add: construct_at_def move_of_def)
    have d: "shift + (?n - shift) + 1 = ?n + 1" using assms(2) by simp
    from srn x0 ca obtain b2 where
      mb: "move_backward env ?b1 shift (?n - shift) (?n + 1) = (None, b2)" and b0: "b0 = destroy_at b2 shift"
      by (auto simp: shift_right_def split: option.splits prod.splits)
    from move_backward_id[OF assms(4) mb[folded d]] have
      b2: "length b2 = length ?buf"
          "\<forall>i<length ?buf. b2 ! i = (if shift < i \<and> i \<le> shift + (?n - shift) then ?b1 ! (i - 1) else ?b1 ! i)"
      by auto
    have sr: "shift_right env ?buf ?n shift = (None, destroy_at b2 shift)"
      using srn b0 by simp
    have "destroy_at b2 shift ! i = (if shift < i \<and> i \<le> ?n then ?buf ! (i - 1) else ?buf ! i)"
      if i: "i < length ?buf" "i \<noteq> shift" for i
    proof -
      have "destroy_at b2 shift ! i = b2 ! i" using i by (simp add: destroy_at_def)
      also have "\<dots> = (if shift < i \<and> i \<le> ?n then ?b1 ! (i - 1) else ?b1 ! i)"
        using b2(2) i(1) assms(2) by simp
      also have "\<dots> = (if shift < i \<and> i \<le> ?n then ?buf ! (i - 1) else ?buf ! i)"
        using b1 i lt assms(2) False none[of i] by (auto simp: nth_list_update)
      finally show ?thesis .
    qed
    then show ?thesis using sr False b2(1) by (simp add: destroy_at_def)
  qed
  then obtain b where
    sr: "(if size_m ?t \<noteq> 0 then shift_right env ?buf (size_m ?t) shift else (None, ?buf)) = (None, b)"
    and len: "length b = length ?buf"
    and nth: "\<And>i. i < length ?buf \<Longrightarrow> i \<noteq> shift \<Longrightarrow>
                b ! i = (if shift < i \<and> i \<le> size_m ?t then ?buf ! (i - 1) else ?buf ! i)"
    by blast
  have ca: "construct_at b shift (Some x) = Inr (b[shift := Some x])"
    using len lt assms(2) by (simp add: construct_at_def)
  let ?v = "(set_buffer ?t (b[shift := Some x]))\<lparr>size_m := size_m ?t + 1\<rparr>"
  have r: "Emplace env this shift (Some x) st = Done (put st this ?v)"
    using assms(2,3) sr ca unfolding Emplace_def Emplace_with_def Let_def GetAddress_def by simp
  have "?v = vec ?ys (Capacity ?t)"
  proof (rule vec_eqI)
    show "size_m ?v = length ?ys" using lxs assms(2) by simp
    show "capacity_m (data_m ?v) = Capacity ?t" by (simp add: set_buffer_def Capacity_def)
    show "length (buffer_m (data_m ?v)) = Capacity ?t" using len lb by simp
    show "length ?ys \<le> Capacity ?t" using lt lb lxs assms(2) by simp
    show "buffer_m (data_m ?v) ! i = (if i < length ?ys then Some (?ys ! i) else None)"
      if i: "i < Capacity ?t" for i
    proof -
      have ly: "length ?ys = size_m ?t + 1" using lxs assms(2) by simp
      have il: "i < length ?buf" using i lb by simp
      consider "i < shift" | "i = shift" | "shift < i" "i \<le> size_m ?t" | "size_m ?t < i"
        by linarith
      then show ?thesis
      proof cases
        case 1
        then have "b[shift := Some x] ! i = ?buf ! i" using nth[OF il] by simp
        moreover have "?ys ! i = ?xs ! i" using 1 assms(2) lxs by (simp add: insert_nth)
        ultimately show ?thesis using 1 assms(2) ly some[of i] by simp
      next
        case 2
        then have "b[shift := Some x] ! i = Some x" using il len by simp
        moreover have "?ys ! i = x" using 2 assms(2) lxs by (simp add: insert_nth)
        ultimately show ?thesis using 2 assms(2) ly by simp
      next
        case 3
        then have "b[shift := Some x] ! i = ?buf ! (i - 1)" using nth[OF il] by simp
        also have "\<dots> = Some (?xs ! (i - 1))" using 3 some[of "i - 1"] by simp
        finally have "b[shift := Some x] ! i = Some (?xs ! (i - 1))" .
        moreover have "?ys ! i = ?xs ! (i - 1)" using 3 assms(2) lxs by (simp add: insert_nth)
        ultimately show ?thesis using 3 ly by simp
      next
        case 4
        then have "b[shift := Some x] ! i = None" using nth[OF il] none[OF il] assms(2) by simp
        then show ?thesis using 4 ly by simp
      qed
    qed
  qed
  with r show ?thesis by simp
qed

lemma size_vec: "size_m (vec xs cap) = length xs"
  by (simp add: vec_def)

lemma Emplace_in_place_None:
  assumes "shift \<le> size_m (objs st this)" and "size_m (objs st this) \<noteq> Capacity (objs st this)"
  shows "thrown (Emplace env this shift None st) \<noteq> None"
proof -
  let ?t = "objs st this"
  obtain e b where sr:
    "(if size_m ?t \<noteq> 0 then shift_right env (buffer_m (data_m ?t)) (size_m ?t) shift
      else (None, buffer_m (data_m ?t))) = (e, b)"
    by (cases "if size_m ?t \<noteq> 0 then shift_right env (buffer_m (data_m ?t)) (size_m ?t) shift
               else (None, buffer_m (data_m ?t))") auto
  show ?thesis using assms sr unfolding Emplace_def Emplace_with_def Let_def GetAddress_def
    by (cases e) (simp_all add: construct_at_def)
qed

text \<open>
  Where Emplace reallocates, and where a moved-from element keeps its value (as an
  \<open>int\<close> does), an insertion that returns has put the new element at \<open>shift\<close>, kept
  the elements before it and moved the others one slot later.
\<close>

lemma Emplace_inserts:
  assumes "inv (objs st this)" and "shift \<le> size_m (objs st this)"
      and "size_m (objs st this) = Capacity (objs st this) \<longrightarrow>
             fits env (max 1 (2 * Capacity (objs st this)))"
      and "size_m (objs st this) \<noteq> Capacity (objs st this) \<longrightarrow> (\<forall>x. moved_from env x = x)"
      and "thrown (Emplace env this shift arg st) = None"
  shows "\<exists>x. arg = Some x \<and>
           elems (objs (store_of (Emplace env this shift arg st)) this) =
             take shift (elems (objs st this)) @ x # drop shift (elems (objs st this)) \<and>
           size_m (objs (store_of (Emplace env this shift arg st)) this) = size_m (objs st this) + 1"
proof (cases "size_m (objs st this) = Capacity (objs st this)")
  case True
  with assms(3) have fit: "fits env (max 1 (2 * Capacity (objs st this)))" by simp
  from Emplace_realloc_cases[OF assms(1,2) True fit, of arg] assms(5) obtain x where
    "arg = Some x"
    "objs (store_of (Emplace env this shift arg st)) =
       (objs st)(this := vec (take shift (elems (objs st this)) @ x # drop shift (elems (objs st this)))
          (max 1 (2 * Capacity (objs st this))))"
    by auto
  then show ?thesis using assms(1,2) by (simp add: elems_vec size_vec inv_length_elems)
next
  case False
  with assms(4) have id: "\<forall>x. moved_from env x = x" by simp
  from Emplace_in_place_None[OF assms(2) False, of env] assms(5) obtain x where x: "arg = Some x"
    by (cases arg) auto
  from Emplace_in_place_id[OF assms(1,2) False id, of x] x assms(1,2,5) show ?thesis
    by (simp add: elems_vec size_vec inv_length_elems)
qed

text \<open>
  \<open>Insert(pos, v[i])\<close> in place copies the new element from the slot \<open>i\<close> after the
  shift, where another element has arrived: inserting the last element of [1, 2, 3]
  (capacity 4) at the front gives [2, 1, 2, 3], where inserting an object of the same
  value 3 from outside the vector gives [3, 1, 2, 3]. Where Emplace reallocates, the
  new element is copied before the elements are transferred.
\<close>

lemma Insert_own_reads_shifted:
  "objs (store_of (Insert_own int_env 0 0 2 (two (vec [1, 2, 3] 4) (vec [] 0)))) 0 =
     vec [2, 1, 2, 3] 4 \<and>
   objs (store_of (Insert int_env 0 0 3 (two (vec [1, 2, 3] 4) (vec [] 0)))) 0 =
     vec [3, 1, 2, 3] 4 \<and>
   objs (store_of (Insert_own int_env 0 0 2 (two (vec [1, 2, 3] 3) (vec [] 0)))) 0 =
     vec [3, 1, 2, 3] 6"
  by code_simp

text \<open>
  Claim C3 fails on the code where the insertion is done in place and a moved-from
  element does not keep its value. Emplace first moves the last element into the slot
  \<open>size_\<close> and then runs \<open>move_backward\<close> on the range that still includes that
  moved-from element, so the slot \<open>size_\<close> is overwritten with the moved-from value:
  inserting 9 at index 1 of [1, 2, 3] (capacity 4) gives [1, 9, 2, 0], and inserting 9
  at index 3 gives [1, 2, 0, 9].
\<close>

theorem Insert_in_place_loses_last:
  "thrown (Insert_move reset_env 0 1 9 (two (vec [1, 2, 3] 4) (vec [] 0))) = None \<and>
   elems (objs (store_of (Insert_move reset_env 0 1 9 (two (vec [1, 2, 3] 4) (vec [] 0)))) 0) =
     [1, 9, 2, 0] \<and>
   thrown (Insert_move reset_env 0 3 9 (two (vec [1, 2, 3] 4) (vec [] 0))) = None \<and>
   elems (objs (store_of (Insert_move reset_env 0 3 9 (two (vec [1, 2, 3] 4) (vec [] 0)))) 0) =
     [1, 2, 0, 9]"
  by code_simp

end
